theory Spec2Isabelle
  imports Main "HOL-Library.Monad_Syntax"
begin

section \<open>Blobs and batches\<close>

text \<open>
  Modelled from the spec: the array class \<open>Blob\<close> (blob.hpp is not among the sources).
  An array has a shape and contiguous values; \<open>count\<close> is the number of visible
  values, the storage lists are the backing store on the host and on the device, and
  their length is the capacity.
\<close>

record 'a Blob =
  shape :: "nat list"
  count :: nat
  cpu_mem :: "'a list"
  gpu_mem :: "'a list"

text \<open>The default-constructed array: no shape, no values, no storage.\<close>

definition Blob_empty :: "'a Blob" where
  "Blob_empty = \<lparr>shape = [], count = 0, cpu_mem = [], gpu_mem = []\<rparr>"

text \<open>
  Modelled from the spec: "reshape to match a given shape (resizes backing storage if
  needed, preserves no prior contents)". Storage that is too small is replaced by fresh
  storage of the new size.
\<close>

definition ReshapeLike :: "'a::zero Blob \<Rightarrow> 'a Blob \<Rightarrow> 'a Blob" where
  "ReshapeLike other b =
     (let n = prod_list (shape other) in
      if length (cpu_mem b) < n
      then \<lparr>shape = shape other, count = n,
            cpu_mem = replicate n 0, gpu_mem = replicate n 0\<rparr>
      else b\<lparr>shape := shape other, count := n\<rparr>)"

text \<open>
  Modelled from the spec: "copy all contents to a caller-supplied destination
  (element-wise copy, requires destination reshaped to match source first)".
  \<open>caffe_copy n X Y\<close> overwrites the first \<open>n\<close> values of \<open>Y\<close> with those of \<open>X\<close>;
  reading or writing past the end of either buffer is undefined (\<open>None\<close>).
\<close>

definition caffe_copy :: "nat \<Rightarrow> 'a list \<Rightarrow> 'a list \<Rightarrow> 'a list option" where
  "caffe_copy n X Y =
     (if n \<le> length X \<and> n \<le> length Y then Some (take n X @ drop n Y) else None)"

text \<open>The arrays of one buffer slot (\<open>Batch\<close>), named as in base_data_layer.cpp without
  the trailing underscore of the member names.\<close>

record 'a Batch =
  data :: "'a Blob"
  label :: "'a Blob"
  label1 :: "'a Blob"
  label2 :: "'a Blob"
  label3 :: "'a Blob"
  label4 :: "'a Blob"
  label5 :: "'a Blob"
  label6 :: "'a Blob"
  imageindex :: "'a Blob"
  windowindex :: "'a Blob"

definition Batch_empty :: "'a Batch" where
  "Batch_empty =
     \<lparr>data = Blob_empty, label = Blob_empty, label1 = Blob_empty,
      label2 = Blob_empty, label3 = Blob_empty, label4 = Blob_empty,
      label5 = Blob_empty, label6 = Blob_empty, imageindex = Blob_empty,
      windowindex = Blob_empty\<rparr>"

datatype array_id =
  Data | Label | Label1 | Label2 | Label3 | Label4 | Label5 | Label6
  | Imageindex | Windowindex

definition secondary_arrays :: "array_id list" where
  "secondary_arrays =
     [Label, Label1, Label2, Label3, Label4, Label5, Label6, Imageindex, Windowindex]"

fun blob_of :: "array_id \<Rightarrow> 'a Batch \<Rightarrow> 'a Blob" where
  "blob_of Data B = data B"
| "blob_of Label B = label B"
| "blob_of Label1 B = label1 B"
| "blob_of Label2 B = label2 B"
| "blob_of Label3 B = label3 B"
| "blob_of Label4 B = label4 B"
| "blob_of Label5 B = label5 B"
| "blob_of Label6 B = label6 B"
| "blob_of Imageindex B = imageindex B"
| "blob_of Windowindex B = windowindex B"

fun blob_update :: "array_id \<Rightarrow> ('a Blob \<Rightarrow> 'a Blob) \<Rightarrow> 'a Batch \<Rightarrow> 'a Batch" where
  "blob_update Data f B = B\<lparr>data := f (data B)\<rparr>"
| "blob_update Label f B = B\<lparr>label := f (label B)\<rparr>"
| "blob_update Label1 f B = B\<lparr>label1 := f (label1 B)\<rparr>"
| "blob_update Label2 f B = B\<lparr>label2 := f (label2 B)\<rparr>"
| "blob_update Label3 f B = B\<lparr>label3 := f (label3 B)\<rparr>"
| "blob_update Label4 f B = B\<lparr>label4 := f (label4 B)\<rparr>"
| "blob_update Label5 f B = B\<lparr>label5 := f (label5 B)\<rparr>"
| "blob_update Label6 f B = B\<lparr>label6 := f (label6 B)\<rparr>"
| "blob_update Imageindex f B = B\<lparr>imageindex := f (imageindex B)\<rparr>"
| "blob_update Windowindex f B = B\<lparr>windowindex := f (windowindex B)\<rparr>"

section \<open>The blocking hand-off queue\<close>

text \<open>
  Modelled from the spec: \<open>BlockingQueue\<close> (blocking_queue.hpp is not among the
  sources). \<open>push\<close> inserts at the tail and never blocks. \<open>pop\<close> removes and returns the
  head; on an empty queue it blocks (\<open>None\<close>: no result yet), and a caller that has
  received a cancellation signal while blocked gets the cancellation instead of a slot.
  The diagnostic-labelled \<open>pop\<close> has the same blocking semantics.
\<close>

datatype exn = thread_interrupted

definition BlockingQueue_push :: "'b list \<Rightarrow> 'b \<Rightarrow> 'b list" where
  "BlockingQueue_push q x = q @ [x]"

definition BlockingQueue_pop :: "bool \<Rightarrow> 'b list \<Rightarrow> (exn + 'b \<times> 'b list) option" where
  "BlockingQueue_pop interrupted q =
     (case q of
        x # r \<Rightarrow> Some (Inr (x, r))
      | [] \<Rightarrow> if interrupted then Some (Inl thread_interrupted) else None)"

section \<open>The layer\<close>

datatype Brew = CPU | GPU

text \<open>
  Compile-time constants and the process-wide mode: \<open>PREFETCH_COUNT\<close> (declared in
  data_layers.hpp), the \<open>CPU_ONLY\<close> preprocessor switch and \<open>Caffe::mode()\<close>, which
  does not change while the pipeline runs.
\<close>

record config =
  PREFETCH_COUNT :: nat
  CPU_ONLY :: bool
  mode :: Brew

definition staging :: "config \<Rightarrow> bool" where
  "staging cfg = (\<not> CPU_ONLY cfg \<and> mode cfg = GPU)"

text \<open>Where the prefetch thread stands in \<open>InternalThreadEntry\<close>.\<close>

datatype 'a thread_pc =
  T_NotStarted
  | T_Entry
  | T_LoopHead
  | T_Pop
  | T_Load nat
  | T_Loading nat "'a Batch"
  | T_Stage nat
  | T_Sync nat
  | T_Push nat
  | T_Cleanup
  | T_Done

text \<open>Where the consumer stands in \<open>Forward_cpu\<close>, with the call's \<open>batch\<close> and \<open>top\<close>.\<close>

datatype 'a consumer_pc =
  C_Idle
  | C_Holding nat "'a Blob list"
  | C_Copied nat "'a Blob list"

text \<open>
  Modelled from the spec: the device transfer primitive. A stream holds the transfers
  enqueued on it that have not completed, oldest first.
\<close>

datatype stream_state = NoStream | Stream "(nat \<times> array_id) list" | Destroyed

datatype 'a event =
  Ev_mutable_cpu_data nat array_id
  | Ev_mutable_gpu_data nat array_id
  | Ev_InitRand
  | Ev_StartInternalThread
  | Ev_load_batch "'a Batch"
  | Ev_Forward_cpu "'a Blob list"

text \<open>
  The layer object together with its prefetch thread. Slots are identified by their
  index in the array \<open>prefetch\<close>; the queues hold slot indices. \<open>loader\<close> is the state
  of the subclass that implements \<open>load_batch\<close>. \<open>trace\<close> records, in order, the calls
  whose order the specification speaks about.
\<close>

record ('a, 'l) layer =
  output_labels :: bool
  prefetch :: "nat \<Rightarrow> 'a Batch"
  prefetch_free :: "nat list"
  prefetch_full :: "nat list"
  thread :: "'a thread_pc"
  consumer :: "'a consumer_pc"
  stream :: stream_state
  loader :: 'l
  interruption_requested :: bool
  aborted :: bool
  trace :: "'a event list"

text \<open>
  The virtual functions a subclass supplies. \<open>DataLayerSetUp\<close> sets up the sizes of the
  top arrays and of the slots and the subclass's own state. \<open>load_batch\<close> fills a slot
  in place; while it runs the slot holds \<open>load_batch_partial\<close>, some half-written
  content.
\<close>

record ('a, 'l) virtuals =
  DataLayerSetUp ::
    "'a Blob list \<Rightarrow> 'l \<Rightarrow> (nat \<Rightarrow> 'a Batch) \<Rightarrow> 'a Blob list \<times> 'l \<times> (nat \<Rightarrow> 'a Batch)"
  load_batch :: "'l \<Rightarrow> 'a Batch \<Rightarrow> 'l \<times> 'a Batch"
  load_batch_partial :: "'l \<Rightarrow> 'a Batch \<Rightarrow> 'a Batch"

subsection \<open>Construction and setup\<close>

text \<open>
  The constructor pushes the address of every slot onto the free queue.
  \<open>output_labels\<close> is not initialised by it: \<open>ol\<close> is the indeterminate value.
\<close>

definition BasePrefetchingDataLayer :: "config \<Rightarrow> 'l \<Rightarrow> bool \<Rightarrow> ('a, 'l) layer" where
  "BasePrefetchingDataLayer cfg l ol =
     \<lparr>output_labels = ol,
      prefetch = (\<lambda>i. Batch_empty),
      prefetch_free = foldl BlockingQueue_push [] [0..<PREFETCH_COUNT cfg],
      prefetch_full = [],
      thread = T_NotStarted,
      consumer = C_Idle,
      stream = NoStream,
      loader = l,
      interruption_requested = False,
      aborted = False,
      trace = []\<rparr>"

definition log :: "'a event list \<Rightarrow> ('a, 'l) layer \<Rightarrow> ('a, 'l) layer" where
  "log es s = s\<lparr>trace := trace s @ es\<rparr>"

definition BaseDataLayer_LayerSetUp ::
  "('a, 'l) virtuals \<Rightarrow> 'a Blob list \<Rightarrow> ('a, 'l) layer \<Rightarrow> 'a Blob list \<times> ('a, 'l) layer" where
  "BaseDataLayer_LayerSetUp V tops s =
     (let s1 = (if length tops = 1 then s\<lparr>output_labels := False\<rparr>
                else s\<lparr>output_labels := True\<rparr>);
          s2 = log [Ev_InitRand] s1;
          (tops', l', slots') = DataLayerSetUp V tops (loader s2) (prefetch s2)
      in (tops', s2\<lparr>loader := l', prefetch := slots'\<rparr>))"

text \<open>The host and device pre-touches of slot \<open>i\<close>, in the order of the source.\<close>

definition touch_cpu :: "nat \<Rightarrow> ('a, 'l) layer \<Rightarrow> ('a, 'l) layer" where
  "touch_cpu i s =
     (let s1 = log [Ev_mutable_cpu_data i Data] s in
      if output_labels s1 then log (map (Ev_mutable_cpu_data i) secondary_arrays) s1
      else s1)"

definition touch_gpu :: "nat \<Rightarrow> ('a, 'l) layer \<Rightarrow> ('a, 'l) layer" where
  "touch_gpu i s =
     (let s1 = log [Ev_mutable_gpu_data i Data] s in
      if output_labels s1 then log (map (Ev_mutable_gpu_data i) secondary_arrays) s1
      else s1)"

text \<open>
  Modelled from the spec: \<open>StartInternalThread\<close> (internal_thread.cpp is not among the
  sources) spawns the background thread, which begins at the entry of
  \<open>InternalThreadEntry\<close>.
\<close>

definition StartInternalThread :: "('a, 'l) layer \<Rightarrow> ('a, 'l) layer" where
  "StartInternalThread s = log [Ev_StartInternalThread] (s\<lparr>thread := T_Entry\<rparr>)"

definition LayerSetUp ::
  "config \<Rightarrow> ('a, 'l) virtuals \<Rightarrow> 'a Blob list \<Rightarrow> ('a, 'l) layer
     \<Rightarrow> 'a Blob list \<times> ('a, 'l) layer" where
  "LayerSetUp cfg V tops s =
     (let (tops', s1) = BaseDataLayer_LayerSetUp V tops s;
          s2 = foldl (\<lambda>s i. touch_cpu i s) s1 [0..<PREFETCH_COUNT cfg];
          s3 = (if staging cfg
                then foldl (\<lambda>s i. touch_gpu i s) s2 [0..<PREFETCH_COUNT cfg]
                else s2);
          s4 = log [Ev_InitRand] s3
      in (tops', StartInternalThread s4))"

subsection \<open>The consumer-facing accessor\<close>

text \<open>\<open>top[i]->ReshapeLike(src)\<close>; indexing past the end of \<open>top\<close> is undefined.\<close>

definition top_ReshapeLike ::
  "nat \<Rightarrow> 'a::zero Blob \<Rightarrow> 'a Blob list \<Rightarrow> 'a Blob list option" where
  "top_ReshapeLike i src tops =
     (if i < length tops then Some (tops[i := ReshapeLike src (tops ! i)]) else None)"

text \<open>\<open>caffe_copy(src.count(), src.cpu_data(), top[i]->mutable_cpu_data())\<close>.\<close>

definition top_copy :: "nat \<Rightarrow> 'a Blob \<Rightarrow> 'a Blob list \<Rightarrow> 'a Blob list option" where
  "top_copy i src tops =
     (if i < length tops
      then (case caffe_copy (count src) (cpu_mem src) (cpu_mem (tops ! i)) of
              None \<Rightarrow> None
            | Some m \<Rightarrow> Some (tops[i := (tops ! i)\<lparr>cpu_mem := m\<rparr>]))
      else None)"

text \<open>Lines 124 to 159 of \<open>Forward_cpu\<close>: the reshapes and copies, in source order.\<close>

definition Forward_cpu_copy ::
  "bool \<Rightarrow> 'a::zero Batch \<Rightarrow> 'a Blob list \<Rightarrow> 'a Blob list option" where
  "Forward_cpu_copy labels batch tops =
     do {
       t \<leftarrow> top_ReshapeLike 0 (data batch) tops;
       t \<leftarrow> top_copy 0 (data batch) t;
       if labels then do {
         t \<leftarrow> top_ReshapeLike 1 (label batch) t;
         t \<leftarrow> top_ReshapeLike 2 (label1 batch) t;
         t \<leftarrow> top_ReshapeLike 3 (label2 batch) t;
         t \<leftarrow> top_ReshapeLike 4 (label3 batch) t;
         t \<leftarrow> top_ReshapeLike 5 (label4 batch) t;
         t \<leftarrow> top_ReshapeLike 6 (label5 batch) t;
         t \<leftarrow> top_ReshapeLike 7 (label6 batch) t;
         t \<leftarrow> top_ReshapeLike 8 (imageindex batch) t;
         t \<leftarrow> top_ReshapeLike 9 (windowindex batch) t;
         t \<leftarrow> top_copy 1 (label batch) t;
         t \<leftarrow> top_copy 2 (label1 batch) t;
         t \<leftarrow> top_copy 3 (label2 batch) t;
         t \<leftarrow> top_copy 4 (label3 batch) t;
         t \<leftarrow> top_copy 5 (label4 batch) t;
         t \<leftarrow> top_copy 6 (label5 batch) t;
         t \<leftarrow> top_copy 7 (label6 batch) t;
         t \<leftarrow> top_copy 8 (imageindex batch) t;
         top_copy 9 (windowindex batch) t
       } else Some t
     }"

datatype fault = Would_block | Uncaught exn | Undefined_behaviour

text \<open>
  One whole call of \<open>Forward_cpu\<close> with no step of the prefetch thread in between:
  pop the full queue, reshape and copy, push the slot onto the free queue.
\<close>

definition Forward_cpu ::
  "'a::zero Blob list \<Rightarrow> ('a, 'l) layer \<Rightarrow> fault + 'a Blob list \<times> ('a, 'l) layer" where
  "Forward_cpu tops s =
     (case BlockingQueue_pop False (prefetch_full s) of
        None \<Rightarrow> Inl Would_block
      | Some (Inl e) \<Rightarrow> Inl (Uncaught e)
      | Some (Inr (batch, rest)) \<Rightarrow>
          (case Forward_cpu_copy (output_labels s) (prefetch s batch) tops of
             None \<Rightarrow> Inl Undefined_behaviour
           | Some tops' \<Rightarrow>
               Inr (tops', log [Ev_Forward_cpu tops']
                      (s\<lparr>prefetch_full := rest,
                         prefetch_free := BlockingQueue_push (prefetch_free s) batch\<rparr>))))"

section \<open>The pipeline as a transition system\<close>

text \<open>
  The prefetch thread and the consumer run concurrently and meet only at the two
  queues, whose operations are atomic. An execution is an interleaving of atomic steps,
  chosen by a schedule of actions.
\<close>

datatype 'a action =
  Worker
  | Cuda_failure
  | Transfer_progress nat
  | Transfer_complete
  | Forward "'a Blob list"
  | Consumer
  | Interrupt

text \<open>
  Modelled from the spec: \<open>must_stop\<close> (internal_thread.cpp is not among the sources)
  reads the shutdown flag, which a stop request sets.
\<close>

definition must_stop :: "('a, 'l) layer \<Rightarrow> bool" where
  "must_stop s = interruption_requested s"

definition request_stop :: "('a, 'l) layer \<Rightarrow> ('a, 'l) layer" where
  "request_stop s = s\<lparr>interruption_requested := True\<rparr>"

text \<open>
  One atomic step of \<open>InternalThreadEntry\<close>. \<open>None\<close> means the thread cannot step: it
  is blocked, has returned, or the step is undefined. The \<open>catch\<close> clause turns the
  interruption of the blocked \<open>pop\<close> into a normal exit from the loop.
\<close>

definition InternalThreadEntry_step ::
  "config \<Rightarrow> ('a, 'l) virtuals \<Rightarrow> ('a, 'l) layer \<Rightarrow> ('a, 'l) layer option" where
  "InternalThreadEntry_step cfg V s =
     (case thread s of
        T_NotStarted \<Rightarrow> None
      | T_Entry \<Rightarrow>
          Some (if staging cfg then s\<lparr>stream := Stream [], thread := T_LoopHead\<rparr>
                else s\<lparr>thread := T_LoopHead\<rparr>)
      | T_LoopHead \<Rightarrow>
          Some (if must_stop s then s\<lparr>thread := T_Cleanup\<rparr> else s\<lparr>thread := T_Pop\<rparr>)
      | T_Pop \<Rightarrow>
          (case BlockingQueue_pop (interruption_requested s) (prefetch_free s) of
             None \<Rightarrow> None
           | Some (Inl thread_interrupted) \<Rightarrow> Some (s\<lparr>thread := T_Cleanup\<rparr>)
           | Some (Inr (batch, rest)) \<Rightarrow>
               Some (s\<lparr>prefetch_free := rest, thread := T_Load batch\<rparr>))
      | T_Load batch \<Rightarrow>
          Some (s\<lparr>prefetch := (prefetch s)
                       (batch := load_batch_partial V (loader s) (prefetch s batch)),
                  thread := T_Loading batch (prefetch s batch)\<rparr>)
      | T_Loading batch old \<Rightarrow>
          (let (l', B) = load_batch V (loader s) old in
           Some (log [Ev_load_batch B]
                   (s\<lparr>prefetch := (prefetch s)(batch := B), loader := l',
                      thread := T_Stage batch\<rparr>)))
      | T_Stage batch \<Rightarrow>
          (if staging cfg
           then (case stream s of
                   Stream ps \<Rightarrow>
                     Some (s\<lparr>stream := Stream (ps @ [(batch, Data)]),
                             thread := T_Sync batch\<rparr>)
                 | _ \<Rightarrow> None)
           else Some (s\<lparr>thread := T_Push batch\<rparr>))
      | T_Sync batch \<Rightarrow>
          (case stream s of
             Stream [] \<Rightarrow> Some (s\<lparr>thread := T_Push batch\<rparr>)
           | _ \<Rightarrow> None)
      | T_Push batch \<Rightarrow>
          Some (s\<lparr>prefetch_full := BlockingQueue_push (prefetch_full s) batch,
                  thread := T_LoopHead\<rparr>)
      | T_Cleanup \<Rightarrow>
          (if staging cfg
           then (case stream s of
                   Stream ps \<Rightarrow> Some (s\<lparr>stream := Destroyed, thread := T_Done\<rparr>)
                 | _ \<Rightarrow> None)
           else Some (s\<lparr>thread := T_Done\<rparr>))
      | T_Done \<Rightarrow> None)"

text \<open>
  \<open>CUDA_CHECK\<close> (lines 93, 104 and 114) aborts the process when the device call fails.
\<close>

definition at_CUDA_CHECK :: "'a thread_pc \<Rightarrow> bool" where
  "at_CUDA_CHECK pc =
     (case pc of T_Entry \<Rightarrow> True | T_Sync b \<Rightarrow> True | T_Cleanup \<Rightarrow> True | _ \<Rightarrow> False)"

definition cuda_failure :: "config \<Rightarrow> ('a, 'l) layer \<Rightarrow> ('a, 'l) layer option" where
  "cuda_failure cfg s =
     (if staging cfg \<and> at_CUDA_CHECK (thread s) then Some (s\<lparr>aborted := True\<rparr>) else None)"

text \<open>
  Modelled from the spec: the device works on the oldest transfer of the stream. While
  the transfer is in flight the device copy holds a part of the host values; on
  completion it holds all of them and the transfer leaves the stream.
\<close>

definition transfer_progress :: "nat \<Rightarrow> ('a, 'l) layer \<Rightarrow> ('a, 'l) layer option" where
  "transfer_progress k s =
     (case stream s of
        Stream ((b, a) # ps) \<Rightarrow>
          Some (s\<lparr>prefetch := (prefetch s)
                  (b := blob_update a
                          (\<lambda>x. x\<lparr>gpu_mem := take k (cpu_mem x) @ drop k (gpu_mem x)\<rparr>)
                          (prefetch s b))\<rparr>)
      | _ \<Rightarrow> None)"

definition transfer_complete :: "('a, 'l) layer \<Rightarrow> ('a, 'l) layer option" where
  "transfer_complete s =
     (case stream s of
        Stream ((b, a) # ps) \<Rightarrow>
          Some (s\<lparr>prefetch := (prefetch s)
                  (b := blob_update a (\<lambda>x. x\<lparr>gpu_mem := cpu_mem x\<rparr>) (prefetch s b)),
                  stream := Stream ps\<rparr>)
      | _ \<Rightarrow> None)"

text \<open>The three atomic sections of \<open>Forward_cpu\<close>: line 122, lines 124 to 159, line 161.\<close>

definition Forward_cpu_enter ::
  "'a Blob list \<Rightarrow> ('a, 'l) layer \<Rightarrow> ('a, 'l) layer option" where
  "Forward_cpu_enter tops s =
     (case consumer s of
        C_Idle \<Rightarrow>
          (case BlockingQueue_pop False (prefetch_full s) of
             Some (Inr (batch, rest)) \<Rightarrow>
               Some (s\<lparr>prefetch_full := rest, consumer := C_Holding batch tops\<rparr>)
           | _ \<Rightarrow> None)
      | _ \<Rightarrow> None)"

definition Forward_cpu_step :: "('a::zero, 'l) layer \<Rightarrow> ('a, 'l) layer option" where
  "Forward_cpu_step s =
     (case consumer s of
        C_Idle \<Rightarrow> None
      | C_Holding batch tops \<Rightarrow>
          (case Forward_cpu_copy (output_labels s) (prefetch s batch) tops of
             None \<Rightarrow> None
           | Some tops' \<Rightarrow> Some (s\<lparr>consumer := C_Copied batch tops'\<rparr>))
      | C_Copied batch tops' \<Rightarrow>
          Some (log [Ev_Forward_cpu tops']
                  (s\<lparr>prefetch_free := BlockingQueue_push (prefetch_free s) batch,
                     consumer := C_Idle\<rparr>)))"

definition step ::
  "config \<Rightarrow> ('a::zero, 'l) virtuals \<Rightarrow> 'a action \<Rightarrow> ('a, 'l) layer
     \<Rightarrow> ('a, 'l) layer option" where
  "step cfg V a s =
     (if aborted s then None
      else (case a of
              Worker \<Rightarrow> InternalThreadEntry_step cfg V s
            | Cuda_failure \<Rightarrow> cuda_failure cfg s
            | Transfer_progress k \<Rightarrow> transfer_progress k s
            | Transfer_complete \<Rightarrow> transfer_complete s
            | Forward tops \<Rightarrow> Forward_cpu_enter tops s
            | Consumer \<Rightarrow> Forward_cpu_step s
            | Interrupt \<Rightarrow> Some (request_stop s)))"

fun exec ::
  "config \<Rightarrow> ('a::zero, 'l) virtuals \<Rightarrow> 'a action list \<Rightarrow> ('a, 'l) layer
     \<Rightarrow> ('a, 'l) layer option" where
  "exec cfg V [] s = Some s"
| "exec cfg V (a # as) s =
     (case step cfg V a s of None \<Rightarrow> None | Some s' \<Rightarrow> exec cfg V as s')"

text \<open>The pipeline after construction and setup, with the prefetch thread started.\<close>

definition started ::
  "config \<Rightarrow> ('a, 'l) virtuals \<Rightarrow> 'a Blob list \<Rightarrow> 'l \<Rightarrow> bool \<Rightarrow> ('a, 'l) layer" where
  "started cfg V tops l ol = snd (LayerSetUp cfg V tops (BasePrefetchingDataLayer cfg l ol))"

text \<open>The slot the prefetch thread is filling and the slot the consumer is draining.\<close>

fun filling :: "'a thread_pc \<Rightarrow> nat list" where
  "filling (T_Load b) = [b]"
| "filling (T_Loading b old) = [b]"
| "filling (T_Stage b) = [b]"
| "filling (T_Sync b) = [b]"
| "filling (T_Push b) = [b]"
| "filling pc = []"

fun draining :: "'a consumer_pc \<Rightarrow> nat list" where
  "draining (C_Holding b tops) = [b]"
| "draining (C_Copied b tops) = [b]"
| "draining C_Idle = []"

definition slot_refs :: "('a, 'l) layer \<Rightarrow> nat list" where
  "slot_refs s =
     prefetch_free s @ prefetch_full s @ filling (thread s) @ draining (consumer s)"

section \<open>Notions used by the properties\<close>

text \<open>Every slot of the pool is referenced exactly once.\<close>

definition conserved :: "config \<Rightarrow> ('a, 'l) layer \<Rightarrow> bool" where
  "conserved cfg s = (distinct (slot_refs s) \<and> set (slot_refs s) = {0..<PREFETCH_COUNT cfg})"

text \<open>
  An array whose visible values lie within its host storage and within its shape; the
  default-constructed array and every reshaped array are of this kind.
\<close>

definition readable :: "'a Blob \<Rightarrow> bool" where
  "readable b = (count b \<le> length (cpu_mem b) \<and> count b \<le> prod_list (shape b))"

definition Batch_readable :: "bool \<Rightarrow> 'a Batch \<Rightarrow> bool" where
  "Batch_readable labels B =
     (readable (data B) \<and>
      (labels \<longrightarrow> list_all (\<lambda>a. readable (blob_of a B)) secondary_arrays))"

text \<open>
  The destination \<open>dst\<close> has been reshaped to the shape of \<open>src\<close> and holds all the
  visible values of \<open>src\<close>.
\<close>

definition delivered :: "'a Blob \<Rightarrow> 'a Blob \<Rightarrow> bool" where
  "delivered src dst =
     (shape dst = shape src \<and> count dst = prod_list (shape src) \<and>
      take (count src) (cpu_mem dst) = take (count src) (cpu_mem src))"

text \<open>The net effect of \<open>ReshapeLike\<close> followed by \<open>caffe_copy\<close> on one destination.\<close>

definition deliver :: "'a::zero Blob \<Rightarrow> 'a Blob \<Rightarrow> 'a Blob" where
  "deliver src dst =
     (ReshapeLike src dst)\<lparr>cpu_mem := take (count src) (cpu_mem src)
        @ drop (count src) (cpu_mem (ReshapeLike src dst))\<rparr>"

text \<open>The number of destinations \<open>Forward_cpu\<close> indexes.\<close>

definition tops_needed :: "bool \<Rightarrow> nat" where
  "tops_needed labels = (if labels then 10 else 1)"

subsection \<open>Invariants\<close>

text \<open>The transfers a stream still holds.\<close>

fun pending :: "stream_state \<Rightarrow> (nat \<times> array_id) list" where
  "pending (Stream ps) = ps"
| "pending NoStream = []"
| "pending Destroyed = []"

text \<open>The device copy of the primary array holds the host values.\<close>

definition synced :: "'a Batch \<Rightarrow> bool" where
  "synced B = (gpu_mem (data B) = cpu_mem (data B))"

text \<open>
  The reading in the words of the specification, ``the slot's contents'' are on the
  device: the device copy of every one of the ten arrays holds the host values.
\<close>

definition contents_synced :: "'a Batch \<Rightarrow> bool" where
  "contents_synced B =
     list_all (\<lambda>a. gpu_mem (blob_of a B) = cpu_mem (blob_of a B)) (Data # secondary_arrays)"

text \<open>The slot the prefetch thread has loaded and not yet pushed.\<close>

fun unpublished :: "'a thread_pc \<Rightarrow> nat list" where
  "unpublished (T_Stage b) = [b]"
| "unpublished (T_Sync b) = [b]"
| "unpublished (T_Push b) = [b]"
| "unpublished pc = []"

text \<open>What the host side of an array holds, and batches that agree on it.\<close>

definition host_part :: "'a Blob \<Rightarrow> nat list \<times> nat \<times> 'a list" where
  "host_part x = (shape x, count x, cpu_mem x)"

definition same_host :: "'a Batch \<Rightarrow> 'a Batch \<Rightarrow> bool" where
  "same_host B B' = (\<forall>a. host_part (blob_of a B) = host_part (blob_of a B'))"

text \<open>The state of the stream at each point of \<open>InternalThreadEntry\<close>.\<close>

definition stream_ok :: "config \<Rightarrow> ('a, 'l) layer \<Rightarrow> bool" where
  "stream_ok cfg s =
     (case thread s of
        T_NotStarted \<Rightarrow> stream s = NoStream
      | T_Entry \<Rightarrow> stream s = NoStream
      | T_Sync b \<Rightarrow> staging cfg \<and> (stream s = Stream [] \<or> stream s = Stream [(b, Data)])
      | T_Done \<Rightarrow> stream s = (if staging cfg then Destroyed else NoStream)
      | _ \<Rightarrow> stream s = (if staging cfg then Stream [] else NoStream))"

text \<open>With device staging, every published slot is fully staged.\<close>

definition staged_ok :: "config \<Rightarrow> ('a, 'l) layer \<Rightarrow> bool" where
  "staged_ok cfg s =
     (staging cfg \<longrightarrow>
      (\<forall>b \<in> set (prefetch_full s) \<union> set (draining (consumer s)). synced (prefetch s b))
      \<and> (\<forall>b. thread s = T_Push b \<longrightarrow> synced (prefetch s b))
      \<and> (\<forall>b. thread s = T_Sync b \<and> stream s = Stream [] \<longrightarrow> synced (prefetch s b)))"

text \<open>Every loaded slot holds, on the host, what a finished \<open>load_batch\<close> left.\<close>

definition complete_ok :: "('a, 'l) layer \<Rightarrow> bool" where
  "complete_ok s =
     (\<forall>b \<in> set (prefetch_full s) \<union> set (draining (consumer s)) \<union> set (unpublished (thread s)).
        \<exists>B. Ev_load_batch B \<in> set (trace s) \<and> same_host (prefetch s b) B)"

text \<open>The step is one of the two steps of the call of \<open>load_batch\<close>.\<close>

definition in_load_batch :: "'a action \<Rightarrow> 'a thread_pc \<Rightarrow> bool" where
  "in_load_batch a pc =
     (case a of
        Worker \<Rightarrow> (case pc of T_Load b \<Rightarrow> True | T_Loading b old \<Rightarrow> True | _ \<Rightarrow> False)
      | _ \<Rightarrow> False)"

subsection \<open>The sequential reference\<close>

text \<open>What staging leaves in a slot: the device copy of the primary array is complete.\<close>

definition stage :: "config \<Rightarrow> 'a Batch \<Rightarrow> 'a Batch" where
  "stage cfg B = (if staging cfg then blob_update Data (\<lambda>x. x\<lparr>gpu_mem := cpu_mem x\<rparr>) B else B)"

text \<open>
  The pipeline without concurrency: the loader is called on the slots one after the
  other, round robin, and each slot is staged after its load. \<open>sequential_state k\<close>
  is the loader state and the slots after \<open>k\<close> loads, \<open>sequential_batch k\<close> the batch
  the loader returns on call \<open>k\<close>. Both depend on the loader and on the state after
  setup only.
\<close>

fun sequential_state ::
  "config \<Rightarrow> ('a, 'l) virtuals \<Rightarrow> ('a, 'l) layer \<Rightarrow> nat \<Rightarrow> 'l \<times> (nat \<Rightarrow> 'a Batch)" where
  "sequential_state cfg V s0 0 = (loader s0, prefetch s0)"
| "sequential_state cfg V s0 (Suc k) =
     (let (l, slots) = sequential_state cfg V s0 k;
          b = k mod PREFETCH_COUNT cfg;
          (l', B) = load_batch V l (slots b)
      in (l', slots(b := stage cfg B)))"

definition sequential_batch ::
  "config \<Rightarrow> ('a, 'l) virtuals \<Rightarrow> ('a, 'l) layer \<Rightarrow> nat \<Rightarrow> 'a Batch" where
  "sequential_batch cfg V s0 k =
     (let (l, slots) = sequential_state cfg V s0 k
      in snd (load_batch V l (slots (k mod PREFETCH_COUNT cfg))))"

text \<open>The batches loaded and the results of the calls of \<open>Forward_cpu\<close>, in order.\<close>

fun loaded :: "'a event list \<Rightarrow> 'a Batch list" where
  "loaded [] = []"
| "loaded (Ev_load_batch B # es) = B # loaded es"
| "loaded (e # es) = loaded es"

fun forwarded :: "'a event list \<Rightarrow> 'a Blob list list" where
  "forwarded [] = []"
| "forwarded (Ev_Forward_cpu t # es) = t # forwarded es"
| "forwarded (e # es) = forwarded es"

text \<open>The result of a call of \<open>Forward_cpu\<close> that has copied and not yet returned.\<close>

fun copied :: "'a consumer_pc \<Rightarrow> 'a Blob list list" where
  "copied (C_Copied b tops) = [tops]"
| "copied pc = []"

text \<open>The destinations \<open>t\<close> hold the arrays of batch \<open>B\<close> that the call copies.\<close>

definition received :: "bool \<Rightarrow> 'a Blob list \<Rightarrow> 'a Batch \<Rightarrow> bool" where
  "received labels t B =
     (delivered (data B) (t ! 0) \<and>
      (labels \<longrightarrow>
         delivered (label B) (t ! 1) \<and> delivered (label1 B) (t ! 2)
       \<and> delivered (label2 B) (t ! 3) \<and> delivered (label3 B) (t ! 4)
       \<and> delivered (label4 B) (t ! 5) \<and> delivered (label5 B) (t ! 6)
       \<and> delivered (label6 B) (t ! 7) \<and> delivered (imageindex B) (t ! 8)
       \<and> delivered (windowindex B) (t ! 9)))"

subsection \<open>The round-robin invariant\<close>

text \<open>The number of pushes onto the full queue so far.\<close>

definition published :: "('a, 'l) layer \<Rightarrow> nat" where
  "published s = length (loaded (trace s)) - length (unpublished (thread s))"

text \<open>
  With \<open>p\<close> pushes onto the full queue and \<open>d\<close> finished calls of \<open>Forward_cpu\<close>,
  the queues hold consecutive slot numbers modulo \<open>PREFETCH_COUNT\<close>.
\<close>

definition round_robin :: "config \<Rightarrow> ('a, 'l) layer \<Rightarrow> bool" where
  "round_robin cfg s =
     (let d = length (forwarded (trace s)); N = PREFETCH_COUNT cfg; p = published s in
        length (unpublished (thread s)) \<le> length (loaded (trace s))
      \<and> prefetch_free s = map (\<lambda>i. i mod N) [p + length (filling (thread s))..<d + N]
      \<and> prefetch_full s = map (\<lambda>i. i mod N) [d + length (draining (consumer s))..<p]
      \<and> (\<forall>b \<in> set (filling (thread s)). b = p mod N)
      \<and> (\<forall>b \<in> set (draining (consumer s)). b = d mod N)
      \<and> p + length (filling (thread s)) \<le> d + N
      \<and> d + length (draining (consumer s)) \<le> p)"

text \<open>The batch with some other content in the device copy of its primary array.\<close>

definition set_gpu :: "'a list \<Rightarrow> 'a Batch \<Rightarrow> 'a Batch" where
  "set_gpu g B = blob_update Data (\<lambda>x. x\<lparr>gpu_mem := g\<rparr>) B"

text \<open>The slot whose content the prefetch thread has begun to rewrite.\<close>

fun rewritten :: "'a thread_pc \<Rightarrow> nat list" where
  "rewritten (T_Loading b old) = [b]"
| "rewritten (T_Stage b) = [b]"
| "rewritten (T_Sync b) = [b]"
| "rewritten (T_Push b) = [b]"
| "rewritten pc = []"

text \<open>What the slot held by the prefetch thread contains at each point.\<close>

fun held_content ::
  "config \<Rightarrow> (nat \<Rightarrow> 'a Batch) \<Rightarrow> 'a Batch \<Rightarrow> (nat \<Rightarrow> 'a Batch) \<Rightarrow> 'a thread_pc \<Rightarrow> bool" where
  "held_content cfg expected B slots (T_Loading b old) = (old = expected b)"
| "held_content cfg expected B slots (T_Stage b) = (slots b = B)"
| "held_content cfg expected B slots (T_Sync b) = (\<exists>g. slots b = set_gpu g B)"
| "held_content cfg expected B slots (T_Push b) = (slots b = stage cfg B)"
| "held_content cfg expected B slots pc = True"

text \<open>Loader, slots and loaded batches agree with the sequential reference.\<close>

definition follows ::
  "config \<Rightarrow> ('a, 'l) virtuals \<Rightarrow> ('a, 'l) layer \<Rightarrow> ('a, 'l) layer \<Rightarrow> bool" where
  "follows cfg V s0 s =
     (let m = length (loaded (trace s)); p = published s in
        loader s = fst (sequential_state cfg V s0 m)
      \<and> (\<forall>j. j \<notin> set (rewritten (thread s)) \<longrightarrow>
             prefetch s j = snd (sequential_state cfg V s0 p) j)
      \<and> held_content cfg (snd (sequential_state cfg V s0 p)) (sequential_batch cfg V s0 p)
           (prefetch s) (thread s)
      \<and> loaded (trace s) = map (sequential_batch cfg V s0) [0..<m])"

text \<open>The nine reshapes and the nine copies of the secondary arrays, as folds.\<close>

fun reshape_all :: "(nat \<times> 'a::zero Blob) list \<Rightarrow> 'a Blob list \<Rightarrow> 'a Blob list option" where
  "reshape_all [] t = Some t"
| "reshape_all ((i, src) # ps) t = top_ReshapeLike i src t \<bind> reshape_all ps"

fun copy_all :: "(nat \<times> 'a Blob) list \<Rightarrow> 'a Blob list \<Rightarrow> 'a Blob list option" where
  "copy_all [] t = Some t"
| "copy_all ((i, src) # ps) t = top_copy i src t \<bind> copy_all ps"

definition secondary :: "'a Batch \<Rightarrow> (nat \<times> 'a Blob) list" where
  "secondary B =
     [(1, label B), (2, label1 B), (3, label2 B), (4, label3 B), (5, label4 B),
      (6, label5 B), (7, label6 B), (8, imageindex B), (9, windowindex B)]"

text \<open>Call \<open>k\<close> of \<open>Forward_cpu\<close> has received batch \<open>k\<close> of the sequential reference.\<close>

definition handed_over ::
  "config \<Rightarrow> ('a, 'l) virtuals \<Rightarrow> ('a, 'l) layer \<Rightarrow> ('a, 'l) layer \<Rightarrow> bool" where
  "handed_over cfg V s0 s =
     list_all2 (received (output_labels s))
       (forwarded (trace s) @ copied (consumer s))
       (map (sequential_batch cfg V s0)
          [0..<length (forwarded (trace s)) + length (copied (consumer s))])"

text \<open>What a reader of an array sees: its shape and its visible values.\<close>

definition view :: "'a Blob \<Rightarrow> nat list \<times> 'a list" where
  "view x = (shape x, take (count x) (cpu_mem x))"

text \<open>
  The loader stamps consecutive sequence numbers: \<open>cnt\<close> reads the next number from
  the loader state, \<open>seq\<close> reads the number from the primary array of a batch.
\<close>

definition stamps ::
  "('a, 'l) virtuals \<Rightarrow> (nat list \<times> 'a list \<Rightarrow> nat) \<Rightarrow> ('l \<Rightarrow> nat) \<Rightarrow> bool" where
  "stamps V seq cnt =
     (\<forall>l B. count (data (snd (load_batch V l B)))
               = prod_list (shape (data (snd (load_batch V l B))))
            \<and> seq (view (data (snd (load_batch V l B)))) = cnt l
            \<and> cnt (fst (load_batch V l B)) = Suc (cnt l))"

text \<open>All invariants together.\<close>

definition pipeline_ok ::
  "config \<Rightarrow> ('a, 'l) virtuals \<Rightarrow> ('a, 'l) layer \<Rightarrow> ('a, 'l) layer \<Rightarrow> bool" where
  "pipeline_ok cfg V s0 s =
     (stream_ok cfg s \<and> staged_ok cfg s \<and> conserved cfg s \<and> round_robin cfg s
      \<and> follows cfg V s0 s \<and> handed_over cfg V s0 s)"

subsection \<open>A concrete pipeline\<close>

text \<open>
  Two slots, device staging enabled, and a loader that on call \<open>k\<close> fills the primary
  array with the single value \<open>k\<close>.
\<close>

definition demo_cfg :: config where
  "demo_cfg = \<lparr>PREFETCH_COUNT = 2, CPU_ONLY = False, mode = GPU\<rparr>"

definition stamp :: "nat \<Rightarrow> nat Blob" where
  "stamp k = \<lparr>shape = [1], count = 1, cpu_mem = [k], gpu_mem = []\<rparr>"

definition stamping_loader :: "(nat, nat) virtuals" where
  "stamping_loader =
     \<lparr>DataLayerSetUp = (\<lambda>tops l slots. (tops, l, slots)),
      load_batch = (\<lambda>k B. (Suc k, B\<lparr>data := stamp k\<rparr>)),
      load_batch_partial =
        (\<lambda>k B. B\<lparr>data := \<lparr>shape = [1], count = 1, cpu_mem = [], gpu_mem = []\<rparr>\<rparr>)\<rparr>"

text \<open>
  One full cycle of slot 0: the thread starts, claims the slot, loads, stages and
  publishes it; the consumer takes it, copies it out and returns it.
\<close>

definition demo_sched :: "nat action list" where
  "demo_sched =
     [Worker, Worker, Worker, Worker, Worker, Worker, Transfer_progress 0,
      Transfer_complete, Worker, Worker, Forward [Blob_empty], Consumer, Consumer]"

definition demo_start :: "(nat, nat) layer" where
  "demo_start = started demo_cfg stamping_loader [Blob_empty] 0 False"

definition demo_start_labels :: "(nat, nat) layer" where
  "demo_start_labels = started demo_cfg stamping_loader (replicate 10 Blob_empty) 0 False"

text \<open>
  The same pipeline with labels enabled and a loader that on call \<open>k\<close> also fills the
  first label array, with the single value \<open>100 + k\<close>.
\<close>

definition labelling_loader :: "(nat, nat) virtuals" where
  "labelling_loader =
     stamping_loader
       \<lparr>load_batch := (\<lambda>k B. (Suc k, B\<lparr>data := stamp k, label := stamp (100 + k)\<rparr>))\<rparr>"

definition demo_start_labelling :: "(nat, nat) layer" where
  "demo_start_labelling =
     started demo_cfg labelling_loader (replicate 10 Blob_empty) 0 False"

text \<open>A layer with labels enabled whose slot 0 is full.\<close>

definition demo_full :: "(nat, nat) layer" where
  "demo_full =
     \<lparr>output_labels = True,
      prefetch = (\<lambda>i. Batch_empty\<lparr>data := stamp 7, label := stamp 8\<rparr>),
      prefetch_free = [1],
      prefetch_full = [0],
      thread = T_Pop,
      consumer = C_Idle,
      stream = NoStream,
      loader = 1,
      interruption_requested = False,
      aborted = False,
      trace = []\<rparr>"

text \<open>Schedules that stop where the properties below are read off.\<close>

definition demo_sched_push :: "nat action list" where
  "demo_sched_push =
     [Worker, Worker, Worker, Worker, Worker, Worker, Transfer_progress 0,
      Transfer_complete, Worker]"

definition demo_sched_sync :: "nat action list" where
  "demo_sched_sync = [Worker, Worker, Worker, Worker, Worker, Worker, Transfer_progress 0]"

definition demo_sched_full :: "nat action list" where
  "demo_sched_full =
     [Worker, Worker, Worker, Worker, Worker, Worker, Transfer_complete, Worker, Worker]"

definition demo_sched_both :: "nat action list" where
  "demo_sched_both =
     [Worker, Worker, Worker, Worker, Worker, Worker, Transfer_complete, Worker, Worker,
      Forward [Blob_empty], Worker, Worker, Worker]"

definition demo_sched_stage :: "nat action list" where
  "demo_sched_stage = [Worker, Worker, Worker, Worker, Worker]"

definition demo_sched_blocked :: "nat action list" where
  "demo_sched_blocked =
     [Worker, Worker,
      Worker, Worker, Worker, Worker, Transfer_complete, Worker, Worker, Worker,
      Worker, Worker, Worker, Worker, Transfer_complete, Worker, Worker, Worker,
      Interrupt]"

text \<open>One loop iteration of the prefetch thread, one call of the consumer.\<close>

definition demo_worker_cycle :: "nat action list" where
  "demo_worker_cycle =
     [Worker, Worker, Worker, Worker, Worker, Transfer_complete, Worker, Worker]"

definition demo_consumer_cycle :: "nat action list" where
  "demo_consumer_cycle = [Forward [Blob_empty], Consumer, Consumer]"

definition demo_sched_three :: "nat action list" where
  "demo_sched_three =
     Worker # demo_worker_cycle @ demo_worker_cycle @ demo_consumer_cycle
       @ demo_worker_cycle @ demo_consumer_cycle @ demo_consumer_cycle"

section \<open>Basic facts\<close>

lemma exec_invariant:
  assumes "exec cfg V sched s0 = Some s" and "P s0"
    and "\<And>a s s'. P s \<Longrightarrow> step cfg V a s = Some s' \<Longrightarrow> P s'"
  shows "P s"
  using assms(1,2)
proof (induction sched arbitrary: s0)
  case Nil
  then show ?case by simp
next
  case (Cons a as)
  then show ?case by (auto split: option.splits intro: assms(3))
qed

lemma foldl_push: "foldl BlockingQueue_push q xs = q @ xs"
  by (induction xs arbitrary: q) (simp_all add: BlockingQueue_push_def)

lemma log_simps [simp]:
  "output_labels (log es s) = output_labels s"
  "prefetch (log es s) = prefetch s"
  "prefetch_free (log es s) = prefetch_free s"
  "prefetch_full (log es s) = prefetch_full s"
  "thread (log es s) = thread s"
  "consumer (log es s) = consumer s"
  "stream (log es s) = stream s"
  "loader (log es s) = loader s"
  "interruption_requested (log es s) = interruption_requested s"
  "aborted (log es s) = aborted s"
  "trace (log es s) = trace s @ es"
  by (simp_all add: log_def)

lemma touch_cpu_simps [simp]:
  "output_labels (touch_cpu i s) = output_labels s"
  "prefetch (touch_cpu i s) = prefetch s"
  "prefetch_free (touch_cpu i s) = prefetch_free s"
  "prefetch_full (touch_cpu i s) = prefetch_full s"
  "thread (touch_cpu i s) = thread s"
  "consumer (touch_cpu i s) = consumer s"
  "stream (touch_cpu i s) = stream s"
  "loader (touch_cpu i s) = loader s"
  "interruption_requested (touch_cpu i s) = interruption_requested s"
  "aborted (touch_cpu i s) = aborted s"
  by (simp_all add: touch_cpu_def Let_def)

lemma touch_gpu_simps [simp]:
  "output_labels (touch_gpu i s) = output_labels s"
  "prefetch (touch_gpu i s) = prefetch s"
  "prefetch_free (touch_gpu i s) = prefetch_free s"
  "prefetch_full (touch_gpu i s) = prefetch_full s"
  "thread (touch_gpu i s) = thread s"
  "consumer (touch_gpu i s) = consumer s"
  "stream (touch_gpu i s) = stream s"
  "loader (touch_gpu i s) = loader s"
  "interruption_requested (touch_gpu i s) = interruption_requested s"
  "aborted (touch_gpu i s) = aborted s"
  by (simp_all add: touch_gpu_def Let_def)

lemma foldl_touch_cpu_simps [simp]:
  "output_labels (foldl (\<lambda>s i. touch_cpu i s) s xs) = output_labels s"
  "prefetch (foldl (\<lambda>s i. touch_cpu i s) s xs) = prefetch s"
  "prefetch_free (foldl (\<lambda>s i. touch_cpu i s) s xs) = prefetch_free s"
  "prefetch_full (foldl (\<lambda>s i. touch_cpu i s) s xs) = prefetch_full s"
  "thread (foldl (\<lambda>s i. touch_cpu i s) s xs) = thread s"
  "consumer (foldl (\<lambda>s i. touch_cpu i s) s xs) = consumer s"
  "stream (foldl (\<lambda>s i. touch_cpu i s) s xs) = stream s"
  "loader (foldl (\<lambda>s i. touch_cpu i s) s xs) = loader s"
  "interruption_requested (foldl (\<lambda>s i. touch_cpu i s) s xs) = interruption_requested s"
  "aborted (foldl (\<lambda>s i. touch_cpu i s) s xs) = aborted s"
  by (induction xs arbitrary: s) simp_all

lemma foldl_touch_gpu_simps [simp]:
  "output_labels (foldl (\<lambda>s i. touch_gpu i s) s xs) = output_labels s"
  "prefetch (foldl (\<lambda>s i. touch_gpu i s) s xs) = prefetch s"
  "prefetch_free (foldl (\<lambda>s i. touch_gpu i s) s xs) = prefetch_free s"
  "prefetch_full (foldl (\<lambda>s i. touch_gpu i s) s xs) = prefetch_full s"
  "thread (foldl (\<lambda>s i. touch_gpu i s) s xs) = thread s"
  "consumer (foldl (\<lambda>s i. touch_gpu i s) s xs) = consumer s"
  "stream (foldl (\<lambda>s i. touch_gpu i s) s xs) = stream s"
  "loader (foldl (\<lambda>s i. touch_gpu i s) s xs) = loader s"
  "interruption_requested (foldl (\<lambda>s i. touch_gpu i s) s xs) = interruption_requested s"
  "aborted (foldl (\<lambda>s i. touch_gpu i s) s xs) = aborted s"
  by (induction xs arbitrary: s) simp_all

lemma BaseDataLayer_LayerSetUp_simps [simp]:
  "output_labels (snd (BaseDataLayer_LayerSetUp V tops s)) = (length tops \<noteq> 1)"
  "prefetch_free (snd (BaseDataLayer_LayerSetUp V tops s)) = prefetch_free s"
  "prefetch_full (snd (BaseDataLayer_LayerSetUp V tops s)) = prefetch_full s"
  "thread (snd (BaseDataLayer_LayerSetUp V tops s)) = thread s"
  "consumer (snd (BaseDataLayer_LayerSetUp V tops s)) = consumer s"
  "stream (snd (BaseDataLayer_LayerSetUp V tops s)) = stream s"
  "interruption_requested (snd (BaseDataLayer_LayerSetUp V tops s)) = interruption_requested s"
  "aborted (snd (BaseDataLayer_LayerSetUp V tops s)) = aborted s"
  "trace (snd (BaseDataLayer_LayerSetUp V tops s)) = trace s @ [Ev_InitRand]"
  by (simp_all add: BaseDataLayer_LayerSetUp_def Let_def split: prod.splits)

lemma LayerSetUp_simps [simp]:
  "output_labels (snd (LayerSetUp cfg V tops s)) = (length tops \<noteq> 1)"
  "prefetch_free (snd (LayerSetUp cfg V tops s)) = prefetch_free s"
  "prefetch_full (snd (LayerSetUp cfg V tops s)) = prefetch_full s"
  "thread (snd (LayerSetUp cfg V tops s)) = T_Entry"
  "consumer (snd (LayerSetUp cfg V tops s)) = consumer s"
  "stream (snd (LayerSetUp cfg V tops s)) = stream s"
  "interruption_requested (snd (LayerSetUp cfg V tops s)) = interruption_requested s"
  "aborted (snd (LayerSetUp cfg V tops s)) = aborted s"
  by (simp_all add: LayerSetUp_def Let_def StartInternalThread_def split_beta)

lemma started_simps [simp]:
  "output_labels (started cfg V tops l ol) = (length tops \<noteq> 1)"
  "prefetch_free (started cfg V tops l ol) = [0..<PREFETCH_COUNT cfg]"
  "prefetch_full (started cfg V tops l ol) = []"
  "thread (started cfg V tops l ol) = T_Entry"
  "consumer (started cfg V tops l ol) = C_Idle"
  "stream (started cfg V tops l ol) = NoStream"
  "interruption_requested (started cfg V tops l ol) = False"
  "aborted (started cfg V tops l ol) = False"
  by (simp_all add: started_def BasePrefetchingDataLayer_def foldl_push)

lemma conserved_started: "conserved cfg (started cfg V tops l ol)"
  by (simp add: conserved_def slot_refs_def)

lemma InternalThreadEntry_step_cases [consumes 1, case_names
    entry_gpu entry_cpu loop_stop loop_go pop interrupted load_begin load_end
    stage_gpu stage_cpu sync push cleanup_gpu cleanup_cpu]:
  assumes "InternalThreadEntry_step cfg V s = Some s'"
  obtains
    "thread s = T_Entry" "staging cfg" "s' = s\<lparr>stream := Stream [], thread := T_LoopHead\<rparr>"
  | "thread s = T_Entry" "\<not> staging cfg" "s' = s\<lparr>thread := T_LoopHead\<rparr>"
  | "thread s = T_LoopHead" "interruption_requested s" "s' = s\<lparr>thread := T_Cleanup\<rparr>"
  | "thread s = T_LoopHead" "\<not> interruption_requested s" "s' = s\<lparr>thread := T_Pop\<rparr>"
  | b rest where "thread s = T_Pop" "prefetch_free s = b # rest"
      "s' = s\<lparr>prefetch_free := rest, thread := T_Load b\<rparr>"
  | "thread s = T_Pop" "prefetch_free s = []" "interruption_requested s"
      "s' = s\<lparr>thread := T_Cleanup\<rparr>"
  | b where "thread s = T_Load b"
      "s' = s\<lparr>prefetch := (prefetch s)(b := load_batch_partial V (loader s) (prefetch s b)),
               thread := T_Loading b (prefetch s b)\<rparr>"
  | b old l' B where "thread s = T_Loading b old" "load_batch V (loader s) old = (l', B)"
      "s' = log [Ev_load_batch B]
              (s\<lparr>prefetch := (prefetch s)(b := B), loader := l', thread := T_Stage b\<rparr>)"
  | b ps where "thread s = T_Stage b" "staging cfg" "stream s = Stream ps"
      "s' = s\<lparr>stream := Stream (ps @ [(b, Data)]), thread := T_Sync b\<rparr>"
  | b where "thread s = T_Stage b" "\<not> staging cfg" "s' = s\<lparr>thread := T_Push b\<rparr>"
  | b where "thread s = T_Sync b" "stream s = Stream []" "s' = s\<lparr>thread := T_Push b\<rparr>"
  | b where "thread s = T_Push b"
      "s' = s\<lparr>prefetch_full := prefetch_full s @ [b], thread := T_LoopHead\<rparr>"
  | ps where "thread s = T_Cleanup" "staging cfg" "stream s = Stream ps"
      "s' = s\<lparr>stream := Destroyed, thread := T_Done\<rparr>"
  | "thread s = T_Cleanup" "\<not> staging cfg" "s' = s\<lparr>thread := T_Done\<rparr>"
proof (cases "thread s")
  case T_NotStarted
  with assms show ?thesis by (simp add: InternalThreadEntry_step_def)
next
  case T_Entry
  with assms that(1,2) show ?thesis
    by (cases "staging cfg") (auto simp: InternalThreadEntry_step_def)
next
  case T_LoopHead
  with assms that(3,4) show ?thesis
    by (cases "interruption_requested s") (auto simp: InternalThreadEntry_step_def must_stop_def)
next
  case T_Pop
  show ?thesis
  proof (cases "prefetch_free s")
    case Nil
    with T_Pop assms that(6) show ?thesis
      by (cases "interruption_requested s")
        (auto simp: InternalThreadEntry_step_def BlockingQueue_pop_def)
  next
    case (Cons b rest)
    with T_Pop assms that(5) show ?thesis
      by (auto simp: InternalThreadEntry_step_def BlockingQueue_pop_def)
  qed
next
  case (T_Load b)
  with assms that(7) show ?thesis by (auto simp: InternalThreadEntry_step_def)
next
  case (T_Loading b old)
  obtain l' B where "load_batch V (loader s) old = (l', B)" by (cases "load_batch V (loader s) old")
  with T_Loading assms that(8) show ?thesis by (auto simp: InternalThreadEntry_step_def)
next
  case (T_Stage b)
  show ?thesis
  proof (cases "staging cfg")
    case True
    with T_Stage assms that(9) show ?thesis
      by (cases "stream s") (auto simp: InternalThreadEntry_step_def)
  next
    case False
    with T_Stage assms that(10) show ?thesis by (auto simp: InternalThreadEntry_step_def)
  qed
next
  case (T_Sync b)
  with assms that(11) show ?thesis
    by (cases "stream s") (auto simp: InternalThreadEntry_step_def split: list.splits)
next
  case (T_Push b)
  with assms that(12) show ?thesis
    by (auto simp: InternalThreadEntry_step_def BlockingQueue_push_def)
next
  case T_Cleanup
  show ?thesis
  proof (cases "staging cfg")
    case True
    with T_Cleanup assms that(13) show ?thesis
      by (cases "stream s") (auto simp: InternalThreadEntry_step_def)
  next
    case False
    with T_Cleanup assms that(14) show ?thesis by (auto simp: InternalThreadEntry_step_def)
  qed
next
  case T_Done
  with assms show ?thesis by (simp add: InternalThreadEntry_step_def)
qed

lemma step_cases [consumes 1, case_names
    entry_gpu entry_cpu loop_stop loop_go pop interrupted load_begin load_end
    stage_gpu stage_cpu sync push cleanup_gpu cleanup_cpu
    cuda_failure transfer_progress transfer_complete forward copy return interrupt]:
  assumes "step cfg V a s = Some s'"
  obtains
    "a = Worker" "thread s = T_Entry" "staging cfg"
      "s' = s\<lparr>stream := Stream [], thread := T_LoopHead\<rparr>"
  | "a = Worker" "thread s = T_Entry" "\<not> staging cfg" "s' = s\<lparr>thread := T_LoopHead\<rparr>"
  | "a = Worker" "thread s = T_LoopHead" "interruption_requested s"
      "s' = s\<lparr>thread := T_Cleanup\<rparr>"
  | "a = Worker" "thread s = T_LoopHead" "\<not> interruption_requested s"
      "s' = s\<lparr>thread := T_Pop\<rparr>"
  | b rest where "a = Worker" "thread s = T_Pop" "prefetch_free s = b # rest"
      "s' = s\<lparr>prefetch_free := rest, thread := T_Load b\<rparr>"
  | "a = Worker" "thread s = T_Pop" "prefetch_free s = []" "interruption_requested s"
      "s' = s\<lparr>thread := T_Cleanup\<rparr>"
  | b where "a = Worker" "thread s = T_Load b"
      "s' = s\<lparr>prefetch := (prefetch s)(b := load_batch_partial V (loader s) (prefetch s b)),
               thread := T_Loading b (prefetch s b)\<rparr>"
  | b old l' B where "a = Worker" "thread s = T_Loading b old"
      "load_batch V (loader s) old = (l', B)"
      "s' = log [Ev_load_batch B]
              (s\<lparr>prefetch := (prefetch s)(b := B), loader := l', thread := T_Stage b\<rparr>)"
  | b ps where "a = Worker" "thread s = T_Stage b" "staging cfg" "stream s = Stream ps"
      "s' = s\<lparr>stream := Stream (ps @ [(b, Data)]), thread := T_Sync b\<rparr>"
  | b where "a = Worker" "thread s = T_Stage b" "\<not> staging cfg"
      "s' = s\<lparr>thread := T_Push b\<rparr>"
  | b where "a = Worker" "thread s = T_Sync b" "stream s = Stream []"
      "s' = s\<lparr>thread := T_Push b\<rparr>"
  | b where "a = Worker" "thread s = T_Push b"
      "s' = s\<lparr>prefetch_full := prefetch_full s @ [b], thread := T_LoopHead\<rparr>"
  | ps where "a = Worker" "thread s = T_Cleanup" "staging cfg" "stream s = Stream ps"
      "s' = s\<lparr>stream := Destroyed, thread := T_Done\<rparr>"
  | "a = Worker" "thread s = T_Cleanup" "\<not> staging cfg" "s' = s\<lparr>thread := T_Done\<rparr>"
  | "a = Cuda_failure" "staging cfg" "at_CUDA_CHECK (thread s)" "s' = s\<lparr>aborted := True\<rparr>"
  | k b arr ps where "a = Transfer_progress k" "stream s = Stream ((b, arr) # ps)"
      "s' = s\<lparr>prefetch := (prefetch s)
              (b := blob_update arr
                      (\<lambda>x. x\<lparr>gpu_mem := take k (cpu_mem x) @ drop k (gpu_mem x)\<rparr>)
                      (prefetch s b))\<rparr>"
  | b arr ps where "a = Transfer_complete" "stream s = Stream ((b, arr) # ps)"
      "s' = s\<lparr>prefetch := (prefetch s)
              (b := blob_update arr (\<lambda>x. x\<lparr>gpu_mem := cpu_mem x\<rparr>) (prefetch s b)),
              stream := Stream ps\<rparr>"
  | tops b rest where "a = Forward tops" "consumer s = C_Idle" "prefetch_full s = b # rest"
      "s' = s\<lparr>prefetch_full := rest, consumer := C_Holding b tops\<rparr>"
  | b tops tops' where "a = Consumer" "consumer s = C_Holding b tops"
      "Forward_cpu_copy (output_labels s) (prefetch s b) tops = Some tops'"
      "s' = s\<lparr>consumer := C_Copied b tops'\<rparr>"
  | b tops' where "a = Consumer" "consumer s = C_Copied b tops'"
      "s' = log [Ev_Forward_cpu tops']
              (s\<lparr>prefetch_free := prefetch_free s @ [b], consumer := C_Idle\<rparr>)"
  | "a = Interrupt" "s' = s\<lparr>interruption_requested := True\<rparr>"
proof -
  from assms have na: "\<not> aborted s" by (simp add: step_def split: if_splits)
  show ?thesis
  proof (cases a)
    case Worker
    with assms na have "InternalThreadEntry_step cfg V s = Some s'" by (simp add: step_def)
    then show ?thesis
      by (cases rule: InternalThreadEntry_step_cases) (rule that(1-14) [OF Worker]; assumption)+
  next
    case Cuda_failure
    with assms na that(15) [OF Cuda_failure] show ?thesis
      by (simp add: step_def cuda_failure_def split: if_splits)
  next
    case (Transfer_progress k)
    with assms na have *: "transfer_progress k s = Some s'" by (simp add: step_def)
    show ?thesis
    proof (cases "stream s")
      case (Stream ps)
      with * that(16) [OF Transfer_progress] show ?thesis
        by (cases ps) (auto simp: transfer_progress_def)
    qed (use * in \<open>simp_all add: transfer_progress_def\<close>)
  next
    case Transfer_complete
    with assms na have *: "transfer_complete s = Some s'" by (simp add: step_def)
    show ?thesis
    proof (cases "stream s")
      case (Stream ps)
      with * that(17) [OF Transfer_complete] show ?thesis
        by (cases ps) (auto simp: transfer_complete_def)
    qed (use * in \<open>simp_all add: transfer_complete_def\<close>)
  next
    case (Forward tops)
    with assms na have *: "Forward_cpu_enter tops s = Some s'" by (simp add: step_def)
    show ?thesis
    proof (cases "consumer s")
      case C_Idle
      with * that(18) [OF Forward] show ?thesis
        by (cases "prefetch_full s")
          (auto simp: Forward_cpu_enter_def BlockingQueue_pop_def)
    qed (use * in \<open>simp_all add: Forward_cpu_enter_def\<close>)
  next
    case Consumer
    with assms na have *: "Forward_cpu_step s = Some s'" by (simp add: step_def)
    show ?thesis
    proof (cases "consumer s")
      case C_Idle
      with * show ?thesis by (simp add: Forward_cpu_step_def)
    next
      case (C_Holding b tops)
      with * that(19) [OF Consumer] show ?thesis
        by (auto simp: Forward_cpu_step_def split: option.splits)
    next
      case (C_Copied b tops')
      with * that(20) [OF Consumer] show ?thesis
        by (auto simp: Forward_cpu_step_def BlockingQueue_push_def)
    qed
  next
    case Interrupt
    with assms na that(21) [OF Interrupt] show ?thesis by (simp add: step_def request_stop_def)
  qed
qed

lemma conserved_step:
  assumes "conserved cfg s" and "step cfg V a s = Some s'"
  shows "conserved cfg s'"
  using assms(2,1)
  by (cases rule: step_cases) (auto simp: conserved_def slot_refs_def)


lemma ReshapeLike_simps [simp]:
  "shape (ReshapeLike src dst) = shape src"
  "count (ReshapeLike src dst) = prod_list (shape src)"
  "prod_list (shape src) \<le> length (cpu_mem (ReshapeLike src dst))"
  by (simp_all add: ReshapeLike_def Let_def)

lemma ReshapeLike_capacity: "n \<le> prod_list (shape src) \<Longrightarrow> n \<le> length (cpu_mem (ReshapeLike src dst))"
  using ReshapeLike_simps(3) [of src dst] by linarith

lemma top_ReshapeLike_Some:
  "i < length t \<Longrightarrow> top_ReshapeLike i src t = Some (t[i := ReshapeLike src (t ! i)])"
  by (simp add: top_ReshapeLike_def)

lemma top_copy_Some:
  "i < length t \<Longrightarrow> count src \<le> length (cpu_mem src) \<Longrightarrow> count src \<le> length (cpu_mem (t ! i))
   \<Longrightarrow> top_copy i src t
       = Some (t[i := (t ! i)\<lparr>cpu_mem := take (count src) (cpu_mem src) @ drop (count src) (cpu_mem (t ! i))\<rparr>])"
  by (simp add: top_copy_def caffe_copy_def)

lemma delivered_deliver: "readable src \<Longrightarrow> delivered src (deliver src dst)"
  by (simp add: delivered_def deliver_def readable_def)

lemma Forward_cpu_copy_primary:
  assumes "0 < length t" "readable (data B)"
  shows "Forward_cpu_copy False B t = Some (t[0 := deliver (data B) (t ! 0)])"
  using assms
  by (simp add: Forward_cpu_copy_def top_ReshapeLike_Some top_copy_Some readable_def
      ReshapeLike_capacity deliver_def)


lemma Forward_cpu_copy_labels:
  assumes "10 \<le> length t" "Batch_readable True B"
  shows "\<exists>t'. Forward_cpu_copy True B t = Some t' \<and> length t' = length t
    \<and> t' ! 0 = deliver (data B) (t ! 0)
    \<and> t' ! 1 = deliver (label B) (t ! 1)
    \<and> t' ! 2 = deliver (label1 B) (t ! 2)
    \<and> t' ! 3 = deliver (label2 B) (t ! 3)
    \<and> t' ! 4 = deliver (label3 B) (t ! 4)
    \<and> t' ! 5 = deliver (label4 B) (t ! 5)
    \<and> t' ! 6 = deliver (label5 B) (t ! 6)
    \<and> t' ! 7 = deliver (label6 B) (t ! 7)
    \<and> t' ! 8 = deliver (imageindex B) (t ! 8)
    \<and> t' ! 9 = deliver (windowindex B) (t ! 9)
    \<and> drop 10 t' = drop 10 t"
proof -
  from assms(1) have len: "0 < length t" "1 < length t" "2 < length t" "3 < length t"
    "4 < length t" "5 < length t" "6 < length t" "7 < length t" "8 < length t" "9 < length t"
    by linarith+
  from assms(2) have rd: "count (data B) \<le> length (cpu_mem (data B))"
      "count (data B) \<le> prod_list (shape (data B))"
      "count (label B) \<le> length (cpu_mem (label B))"
      "count (label B) \<le> prod_list (shape (label B))"
      "count (label1 B) \<le> length (cpu_mem (label1 B))"
      "count (label1 B) \<le> prod_list (shape (label1 B))"
      "count (label2 B) \<le> length (cpu_mem (label2 B))"
      "count (label2 B) \<le> prod_list (shape (label2 B))"
      "count (label3 B) \<le> length (cpu_mem (label3 B))"
      "count (label3 B) \<le> prod_list (shape (label3 B))"
      "count (label4 B) \<le> length (cpu_mem (label4 B))"
      "count (label4 B) \<le> prod_list (shape (label4 B))"
      "count (label5 B) \<le> length (cpu_mem (label5 B))"
      "count (label5 B) \<le> prod_list (shape (label5 B))"
      "count (label6 B) \<le> length (cpu_mem (label6 B))"
      "count (label6 B) \<le> prod_list (shape (label6 B))"
      "count (imageindex B) \<le> length (cpu_mem (imageindex B))"
      "count (imageindex B) \<le> prod_list (shape (imageindex B))"
      "count (windowindex B) \<le> length (cpu_mem (windowindex B))"
      "count (windowindex B) \<le> prod_list (shape (windowindex B))"
    by (simp_all add: Batch_readable_def secondary_arrays_def readable_def)
  show ?thesis
    unfolding Forward_cpu_copy_def deliver_def
    by (simp add: top_ReshapeLike_Some top_copy_Some len rd ReshapeLike_capacity
        del: length_greater_0_conv One_nat_def)
qed

lemma distinct_count_list: "distinct xs \<Longrightarrow> count_list xs x = (if x \<in> set xs then 1 else 0)"
  by (induction xs) auto

lemma demo_runs: "exec demo_cfg stamping_loader demo_sched demo_start \<noteq> None"
  by code_simp

section \<open>Slot conservation\<close>

text \<open>
  Claim C1. In every state the pipeline can reach after construction and setup, each of
  the \<open>PREFETCH_COUNT\<close> slots is referenced exactly once across the free queue, the
  full queue, the slot the prefetch thread is filling and the slot the consumer is
  draining; so these four places hold \<open>PREFETCH_COUNT\<close> references in total.
\<close>

theorem slot_conservation:
  assumes "exec cfg V sched (started cfg V tops l ol) = Some s"
  shows "(\<forall>i < PREFETCH_COUNT cfg.
            count_list (prefetch_free s) i + count_list (prefetch_full s) i
              + count_list (filling (thread s)) i + count_list (draining (consumer s)) i = 1)
         \<and> length (prefetch_free s) + length (prefetch_full s)
              + length (filling (thread s)) + length (draining (consumer s))
            = PREFETCH_COUNT cfg"
proof -
  have c: "conserved cfg s"
    by (rule exec_invariant [where P = "conserved cfg", OF assms conserved_started conserved_step])
  then have d: "distinct (slot_refs s)" and e: "set (slot_refs s) = {0..<PREFETCH_COUNT cfg}"
    by (simp_all add: conserved_def)
  have "count_list (slot_refs s) i = 1" if "i < PREFETCH_COUNT cfg" for i
    using that d e by (simp add: distinct_count_list)
  moreover have "length (slot_refs s) = PREFETCH_COUNT cfg"
    using distinct_card [OF d] e by simp
  ultimately show ?thesis by (simp add: slot_refs_def add.assoc)
qed

theorem slot_conservation_witness:
  "\<exists>s. exec demo_cfg stamping_loader demo_sched demo_start = Some s
     \<and> count_list (prefetch_free s) 0 + count_list (prefetch_full s) 0
         + count_list (filling (thread s)) 0 + count_list (draining (consumer s)) 0 = 1
     \<and> count_list (prefetch_free s) 1 + count_list (prefetch_full s) 1
         + count_list (filling (thread s)) 1 + count_list (draining (consumer s)) 1 = 1
     \<and> length (prefetch_free s) + length (prefetch_full s)
         + length (filling (thread s)) + length (draining (consumer s)) = 2"
proof -
  obtain s where e: "exec demo_cfg stamping_loader demo_sched demo_start = Some s"
    using demo_runs by blast
  have n: "PREFETCH_COUNT demo_cfg = 2" by (simp add: demo_cfg_def)
  from slot_conservation [OF e [unfolded demo_start_def]] e n show ?thesis by auto
qed

lemma output_labels_step:
  assumes "step cfg V a s = Some s'"
  shows "output_labels s' = output_labels s"
  using assms by (cases rule: step_cases) simp_all

section \<open>Output-labels negotiation\<close>

text \<open>
  Claim C6. \<open>BaseDataLayer::LayerSetUp\<close> sets \<open>output_labels_\<close> to false if and only if
  the top vector has exactly one blob, and no later step of the pipeline changes it.
\<close>

theorem output_labels_negotiation:
  "output_labels (snd (BaseDataLayer_LayerSetUp V tops s)) = (length tops \<noteq> 1)
   \<and> (\<forall>sched s'. exec cfg V sched (snd (LayerSetUp cfg V tops s)) = Some s'
         \<longrightarrow> output_labels s' = (length tops \<noteq> 1))"
proof (intro conjI allI impI)
  show "output_labels (snd (BaseDataLayer_LayerSetUp V tops s)) = (length tops \<noteq> 1)" by simp
next
  fix sched s'
  assume e: "exec cfg V sched (snd (LayerSetUp cfg V tops s)) = Some s'"
  show "output_labels s' = (length tops \<noteq> 1)"
    by (rule exec_invariant [where P = "\<lambda>x. output_labels x = (length tops \<noteq> 1)", OF e])
      (simp_all add: output_labels_step)
qed

theorem output_labels_negotiation_witness:
  "\<not> output_labels (snd (BaseDataLayer_LayerSetUp stamping_loader [Blob_empty]
        (BasePrefetchingDataLayer demo_cfg 0 True)))
   \<and> (\<exists>s'. exec demo_cfg stamping_loader demo_sched demo_start = Some s' \<and> \<not> output_labels s')"
proof -
  obtain s' where e: "exec demo_cfg stamping_loader demo_sched demo_start = Some s'"
    using demo_runs by blast
  have "\<not> output_labels s'"
    using output_labels_negotiation [of stamping_loader "[Blob_empty]"
        "BasePrefetchingDataLayer demo_cfg 0 False" demo_cfg] e
    by (simp add: demo_start_def started_def)
  moreover have "\<not> output_labels (snd (BaseDataLayer_LayerSetUp stamping_loader [Blob_empty]
        (BasePrefetchingDataLayer demo_cfg 0 True)))"
    using output_labels_negotiation [of stamping_loader "[Blob_empty]"
        "BasePrefetchingDataLayer demo_cfg 0 True" demo_cfg]
    by simp
  ultimately show ?thesis using e by blast
qed


section \<open>The consumer-facing accessor\<close>

lemma Forward_cpu_copy_primary_only:
  assumes "Forward_cpu_copy False B t = Some t'"
  shows "t' = t[0 := deliver (data B) (t ! 0)]"
  using assms
  by (auto simp: Forward_cpu_copy_def top_ReshapeLike_def top_copy_def caffe_copy_def
      deliver_def split: if_splits Option.bind_splits)

lemma Forward_cpu_copy_delivers:
  assumes "tops_needed labels \<le> length t" and "Batch_readable labels B"
  shows "\<exists>t'. Forward_cpu_copy labels B t = Some t' \<and> length t' = length t
    \<and> delivered (data B) (t' ! 0)
    \<and> (labels \<longrightarrow>
          delivered (label B) (t' ! 1) \<and> delivered (label1 B) (t' ! 2)
        \<and> delivered (label2 B) (t' ! 3) \<and> delivered (label3 B) (t' ! 4)
        \<and> delivered (label4 B) (t' ! 5) \<and> delivered (label5 B) (t' ! 6)
        \<and> delivered (label6 B) (t' ! 7) \<and> delivered (imageindex B) (t' ! 8)
        \<and> delivered (windowindex B) (t' ! 9))
    \<and> drop (tops_needed labels) t' = drop (tops_needed labels) t"
proof (cases labels)
  case True
  with assms have "10 \<le> length t" "Batch_readable True B" by (simp_all add: tops_needed_def)
  from Forward_cpu_copy_labels [OF this] obtain t' where
    "Forward_cpu_copy True B t = Some t'" "length t' = length t"
    "t' ! 0 = deliver (data B) (t ! 0)" "t' ! 1 = deliver (label B) (t ! 1)"
    "t' ! 2 = deliver (label1 B) (t ! 2)" "t' ! 3 = deliver (label2 B) (t ! 3)"
    "t' ! 4 = deliver (label3 B) (t ! 4)" "t' ! 5 = deliver (label4 B) (t ! 5)"
    "t' ! 6 = deliver (label5 B) (t ! 6)" "t' ! 7 = deliver (label6 B) (t ! 7)"
    "t' ! 8 = deliver (imageindex B) (t ! 8)" "t' ! 9 = deliver (windowindex B) (t ! 9)"
    "drop 10 t' = drop 10 t"
    by blast
  moreover from \<open>Batch_readable True B\<close> have "readable (data B)" "readable (label B)"
    "readable (label1 B)" "readable (label2 B)" "readable (label3 B)" "readable (label4 B)"
    "readable (label5 B)" "readable (label6 B)" "readable (imageindex B)"
    "readable (windowindex B)"
    by (simp_all add: Batch_readable_def secondary_arrays_def)
  ultimately show ?thesis using True
    by (simp add: tops_needed_def delivered_deliver)
next
  case False
  with assms have "0 < length t" "readable (data B)"
    by (auto simp: tops_needed_def Batch_readable_def)
  from Forward_cpu_copy_primary [OF this] \<open>readable (data B)\<close> \<open>0 < length t\<close> False
  show ?thesis by (simp add: tops_needed_def delivered_deliver)
qed

lemma Forward_cpu_blocks:
  "prefetch_full s = [] \<Longrightarrow> Forward_cpu tops s = Inl Would_block"
  by (simp add: Forward_cpu_def BlockingQueue_pop_def)

lemma Forward_cpu_exec:
  assumes "consumer s = C_Idle" and "\<not> aborted s"
    and "Forward_cpu tops s = Inr (tops', s')"
  shows "exec cfg V [Forward tops, Consumer, Consumer] s = Some s'"
proof (cases "prefetch_full s")
  case Nil
  with assms(3) show ?thesis by (simp add: Forward_cpu_blocks)
next
  case (Cons b rest)
  with assms(3) have c: "Forward_cpu_copy (output_labels s) (prefetch s b) tops = Some tops'"
    and s': "s' = log [Ev_Forward_cpu tops']
               (s\<lparr>prefetch_full := rest, prefetch_free := prefetch_free s @ [b]\<rparr>)"
    by (auto simp: Forward_cpu_def BlockingQueue_pop_def BlockingQueue_push_def
        split: option.splits)
  have i: "s\<lparr>consumer := C_Idle\<rparr> = s" using assms(1) by (cases s) simp
  have "exec cfg V [Forward tops, Consumer, Consumer] s
      = Some (log [Ev_Forward_cpu tops']
               ((s\<lparr>consumer := C_Idle\<rparr>)\<lparr>prefetch_full := rest,
                   prefetch_free := prefetch_free s @ [b]\<rparr>))"
    using assms(1,2) Cons c
    by (simp add: step_def Forward_cpu_enter_def Forward_cpu_step_def BlockingQueue_pop_def
        BlockingQueue_push_def log_def)
  then show ?thesis unfolding i s' .
qed

text \<open>
  Claim C4. A call of \<open>Forward_cpu\<close> blocks while the full queue is empty. A call that
  finds a slot at the head of the full queue removes it from there, leaves every
  destination it indexes with the shape and all the visible values of the corresponding
  array of the slot (the primary array always, the nine secondary arrays when labels are
  enabled), leaves the other destinations alone, and appends the same slot to the free
  queue.
\<close>

theorem Forward_cpu_delivers:
  "(prefetch_full s = [] \<longrightarrow> Forward_cpu tops s = Inl Would_block)
   \<and> (\<forall>b rest.
         prefetch_full s = b # rest
         \<and> tops_needed (output_labels s) \<le> length tops
         \<and> Batch_readable (output_labels s) (prefetch s b) \<longrightarrow>
         (\<exists>tops'.
            Forward_cpu tops s
              = Inr (tops', log [Ev_Forward_cpu tops']
                       (s\<lparr>prefetch_full := rest, prefetch_free := prefetch_free s @ [b]\<rparr>))
          \<and> length tops' = length tops
          \<and> delivered (data (prefetch s b)) (tops' ! 0)
          \<and> (output_labels s \<longrightarrow>
                delivered (label (prefetch s b)) (tops' ! 1)
              \<and> delivered (label1 (prefetch s b)) (tops' ! 2)
              \<and> delivered (label2 (prefetch s b)) (tops' ! 3)
              \<and> delivered (label3 (prefetch s b)) (tops' ! 4)
              \<and> delivered (label4 (prefetch s b)) (tops' ! 5)
              \<and> delivered (label5 (prefetch s b)) (tops' ! 6)
              \<and> delivered (label6 (prefetch s b)) (tops' ! 7)
              \<and> delivered (imageindex (prefetch s b)) (tops' ! 8)
              \<and> delivered (windowindex (prefetch s b)) (tops' ! 9))
          \<and> drop (tops_needed (output_labels s)) tops'
              = drop (tops_needed (output_labels s)) tops))"
proof (intro conjI allI impI)
  assume "prefetch_full s = []"
  then show "Forward_cpu tops s = Inl Would_block" by (rule Forward_cpu_blocks)
next
  fix b rest
  assume a: "prefetch_full s = b # rest
         \<and> tops_needed (output_labels s) \<le> length tops
         \<and> Batch_readable (output_labels s) (prefetch s b)"
  then have a1: "prefetch_full s = b # rest"
    and a2: "tops_needed (output_labels s) \<le> length tops"
    and a3: "Batch_readable (output_labels s) (prefetch s b)"
    by simp_all
  from Forward_cpu_copy_delivers [OF a2 a3] obtain tops' where
    c: "Forward_cpu_copy (output_labels s) (prefetch s b) tops = Some tops'"
    and r: "length tops' = length tops"
      "delivered (data (prefetch s b)) (tops' ! 0)"
      "output_labels s \<longrightarrow>
          delivered (label (prefetch s b)) (tops' ! 1)
        \<and> delivered (label1 (prefetch s b)) (tops' ! 2)
        \<and> delivered (label2 (prefetch s b)) (tops' ! 3)
        \<and> delivered (label3 (prefetch s b)) (tops' ! 4)
        \<and> delivered (label4 (prefetch s b)) (tops' ! 5)
        \<and> delivered (label5 (prefetch s b)) (tops' ! 6)
        \<and> delivered (label6 (prefetch s b)) (tops' ! 7)
        \<and> delivered (imageindex (prefetch s b)) (tops' ! 8)
        \<and> delivered (windowindex (prefetch s b)) (tops' ! 9)"
      "drop (tops_needed (output_labels s)) tops' = drop (tops_needed (output_labels s)) tops"
    by blast
  from c a1 have "Forward_cpu tops s
        = Inr (tops', log [Ev_Forward_cpu tops']
                 (s\<lparr>prefetch_full := rest, prefetch_free := prefetch_free s @ [b]\<rparr>))"
    by (simp add: Forward_cpu_def BlockingQueue_pop_def BlockingQueue_push_def)
  with r show "\<exists>tops'.
            Forward_cpu tops s
              = Inr (tops', log [Ev_Forward_cpu tops']
                       (s\<lparr>prefetch_full := rest, prefetch_free := prefetch_free s @ [b]\<rparr>))
          \<and> length tops' = length tops
          \<and> delivered (data (prefetch s b)) (tops' ! 0)
          \<and> (output_labels s \<longrightarrow>
                delivered (label (prefetch s b)) (tops' ! 1)
              \<and> delivered (label1 (prefetch s b)) (tops' ! 2)
              \<and> delivered (label2 (prefetch s b)) (tops' ! 3)
              \<and> delivered (label3 (prefetch s b)) (tops' ! 4)
              \<and> delivered (label4 (prefetch s b)) (tops' ! 5)
              \<and> delivered (label5 (prefetch s b)) (tops' ! 6)
              \<and> delivered (label6 (prefetch s b)) (tops' ! 7)
              \<and> delivered (imageindex (prefetch s b)) (tops' ! 8)
              \<and> delivered (windowindex (prefetch s b)) (tops' ! 9))
          \<and> drop (tops_needed (output_labels s)) tops'
              = drop (tops_needed (output_labels s)) tops"
    by blast
qed

lemma demo_full_facts:
  "prefetch_full demo_full = [0]" "output_labels demo_full"
  "prefetch_free demo_full = [1]"
  "prefetch demo_full 0 = Batch_empty\<lparr>data := stamp 7, label := stamp 8\<rparr>"
  by (simp_all add: demo_full_def)

lemma demo_full_readable: "Batch_readable True (Batch_empty\<lparr>data := stamp 7, label := stamp 8\<rparr>)"
  by (simp add: Batch_readable_def readable_def secondary_arrays_def Batch_empty_def
      Blob_empty_def stamp_def)

theorem Forward_cpu_delivers_witness:
  "(\<exists>tops' s'. Forward_cpu (replicate 10 Blob_empty) demo_full = Inr (tops', s')
     \<and> prefetch_full s' = [] \<and> prefetch_free s' = [1, 0] \<and> length tops' = 10
     \<and> shape (tops' ! 0) = [1] \<and> take 1 (cpu_mem (tops' ! 0)) = [7]
     \<and> shape (tops' ! 1) = [1] \<and> take 1 (cpu_mem (tops' ! 1)) = [8])
   \<and> Forward_cpu [Blob_empty] (demo_full\<lparr>prefetch_full := []\<rparr>) = Inl Would_block"
proof -
  have "tops_needed (output_labels demo_full) \<le> length (replicate 10 (Blob_empty :: nat Blob))"
    by (simp add: tops_needed_def)
  moreover have "Batch_readable (output_labels demo_full) (prefetch demo_full 0)"
    using demo_full_readable by (simp add: demo_full_facts)
  ultimately have "\<exists>tops' s'. Forward_cpu (replicate 10 Blob_empty) demo_full = Inr (tops', s')
     \<and> prefetch_full s' = [] \<and> prefetch_free s' = [1, 0] \<and> length tops' = 10
     \<and> shape (tops' ! 0) = [1] \<and> take 1 (cpu_mem (tops' ! 0)) = [7]
     \<and> shape (tops' ! 1) = [1] \<and> take 1 (cpu_mem (tops' ! 1)) = [8]"
    using Forward_cpu_delivers [of demo_full "replicate 10 Blob_empty"]
    by (auto simp: demo_full_facts delivered_def stamp_def)
  moreover have "Forward_cpu [Blob_empty] (demo_full\<lparr>prefetch_full := []\<rparr>) = Inl Would_block"
    using Forward_cpu_delivers [of "demo_full\<lparr>prefetch_full := []\<rparr>" "[Blob_empty]"]
    by simp
  ultimately show ?thesis by blast
qed

text \<open>
  Claim C5. With labels disabled a call of \<open>Forward_cpu\<close> reshapes and fills only
  \<open>top[0]\<close>, from the primary array of the slot; every other destination and every
  slot are left unchanged.
\<close>

theorem Forward_cpu_labels_disabled:
  assumes "\<not> output_labels s" and "Forward_cpu tops s = Inr (tops', s')"
  shows "\<exists>b rest. prefetch_full s = b # rest
     \<and> tops' = tops[0 := deliver (data (prefetch s b)) (tops ! 0)]
     \<and> length tops' = length tops
     \<and> (\<forall>i. 0 < i \<longrightarrow> tops' ! i = tops ! i)
     \<and> prefetch s' = prefetch s"
proof (cases "prefetch_full s")
  case Nil
  with assms(2) show ?thesis by (simp add: Forward_cpu_def BlockingQueue_pop_def)
next
  case (Cons b rest)
  with assms obtain t where c: "Forward_cpu_copy False (prefetch s b) tops = Some t"
    and t: "tops' = t" and s': "prefetch s' = prefetch s"
    by (auto simp: Forward_cpu_def BlockingQueue_pop_def split: option.splits)
  from Forward_cpu_copy_primary_only [OF c] t Cons s' show ?thesis by simp
qed

theorem Forward_cpu_labels_disabled_witness:
  "\<exists>tops' s'. Forward_cpu [Blob_empty, stamp 3] (demo_full\<lparr>output_labels := False\<rparr>) = Inr (tops', s')
     \<and> length tops' = 2 \<and> tops' ! 1 = stamp 3 \<and> shape (tops' ! 0) = [1]"
proof -
  let ?s = "demo_full\<lparr>output_labels := False\<rparr>"
  have "\<not> isl (Forward_cpu [Blob_empty, stamp 3] ?s)"
    by code_simp
  then obtain tops' s' where e: "Forward_cpu [Blob_empty, stamp 3] ?s = Inr (tops', s')"
    by (cases "Forward_cpu [Blob_empty, stamp 3] ?s") auto
  have "\<not> output_labels ?s" by simp
  from Forward_cpu_labels_disabled [OF this e] e show ?thesis
    by (auto simp: demo_full_def deliver_def stamp_def)
qed


section \<open>Setup\<close>

lemma trace_foldl_touch_cpu:
  "trace (foldl (\<lambda>s i. touch_cpu i s) s xs)
     = trace s @ concat (map (\<lambda>i. Ev_mutable_cpu_data i Data
           # (if output_labels s then map (Ev_mutable_cpu_data i) secondary_arrays else [])) xs)"
  by (induction xs arbitrary: s) (simp_all add: touch_cpu_def Let_def)

lemma trace_foldl_touch_gpu:
  "trace (foldl (\<lambda>s i. touch_gpu i s) s xs)
     = trace s @ concat (map (\<lambda>i. Ev_mutable_gpu_data i Data
           # (if output_labels s then map (Ev_mutable_gpu_data i) secondary_arrays else [])) xs)"
  by (induction xs arbitrary: s) (simp_all add: touch_gpu_def Let_def)

lemma trace_LayerSetUp:
  "trace (snd (LayerSetUp cfg V tops s))
     = trace s
       @ ([Ev_InitRand]
          @ concat (map (\<lambda>i. Ev_mutable_cpu_data i Data
               # (if length tops \<noteq> 1 then map (Ev_mutable_cpu_data i) secondary_arrays else []))
             [0..<PREFETCH_COUNT cfg])
          @ (if staging cfg
             then concat (map (\<lambda>i. Ev_mutable_gpu_data i Data
               # (if length tops \<noteq> 1 then map (Ev_mutable_gpu_data i) secondary_arrays else []))
                 [0..<PREFETCH_COUNT cfg])
             else [])
          @ [Ev_InitRand])
       @ [Ev_StartInternalThread]"
  by (simp add: LayerSetUp_def Let_def split_beta StartInternalThread_def
      trace_foldl_touch_cpu trace_foldl_touch_gpu)

text \<open>
  Claim C9. \<open>BasePrefetchingDataLayer::LayerSetUp\<close> touches the host storage of the
  primary array of every slot, of every secondary array when labels are enabled, and
  with device staging the device storage of the same arrays; starting the prefetch
  thread is its last action, after all of these.
\<close>

theorem LayerSetUp_warm_up:
  "\<exists>pre. trace (snd (LayerSetUp cfg V tops s)) = trace s @ pre @ [Ev_StartInternalThread]
     \<and> Ev_StartInternalThread \<notin> set pre
     \<and> thread (snd (LayerSetUp cfg V tops s)) = T_Entry
     \<and> (\<forall>i < PREFETCH_COUNT cfg.
          Ev_mutable_cpu_data i Data \<in> set pre
        \<and> (output_labels (snd (LayerSetUp cfg V tops s)) \<longrightarrow>
             (\<forall>a \<in> set secondary_arrays. Ev_mutable_cpu_data i a \<in> set pre))
        \<and> (staging cfg \<longrightarrow>
             Ev_mutable_gpu_data i Data \<in> set pre
           \<and> (output_labels (snd (LayerSetUp cfg V tops s)) \<longrightarrow>
                (\<forall>a \<in> set secondary_arrays. Ev_mutable_gpu_data i a \<in> set pre))))"
  apply (subst trace_LayerSetUp)
  apply (rule exI, rule conjI, rule refl)
  apply (auto simp: secondary_arrays_def)
  done

theorem LayerSetUp_warm_up_witness:
  "\<exists>pre. trace (snd (LayerSetUp demo_cfg stamping_loader [Blob_empty, Blob_empty]
             (BasePrefetchingDataLayer demo_cfg 0 False)))
       = pre @ [Ev_StartInternalThread]
     \<and> Ev_mutable_cpu_data 0 Data \<in> set pre \<and> Ev_mutable_cpu_data 1 Windowindex \<in> set pre
     \<and> Ev_mutable_gpu_data 1 Data \<in> set pre \<and> Ev_mutable_gpu_data 0 Label6 \<in> set pre"
proof -
  let ?s = "BasePrefetchingDataLayer demo_cfg 0 False :: (nat, nat) layer"
  have h: "(1::nat) < PREFETCH_COUNT demo_cfg" "(0::nat) < PREFETCH_COUNT demo_cfg"
    "staging demo_cfg" "Windowindex \<in> set secondary_arrays" "Label6 \<in> set secondary_arrays"
    "output_labels (snd (LayerSetUp demo_cfg stamping_loader [Blob_empty, Blob_empty] ?s))"
    "trace ?s = []"
    by (simp_all add: demo_cfg_def staging_def secondary_arrays_def BasePrefetchingDataLayer_def)
  from LayerSetUp_warm_up [of demo_cfg stamping_loader "[Blob_empty, Blob_empty]" ?s]
  obtain pre where
    "trace (snd (LayerSetUp demo_cfg stamping_loader [Blob_empty, Blob_empty] ?s))
       = trace ?s @ pre @ [Ev_StartInternalThread]"
    and "\<forall>i < PREFETCH_COUNT demo_cfg.
          Ev_mutable_cpu_data i Data \<in> set pre
        \<and> (output_labels (snd (LayerSetUp demo_cfg stamping_loader [Blob_empty, Blob_empty] ?s)) \<longrightarrow>
             (\<forall>a \<in> set secondary_arrays. Ev_mutable_cpu_data i a \<in> set pre))
        \<and> (staging demo_cfg \<longrightarrow>
             Ev_mutable_gpu_data i Data \<in> set pre
           \<and> (output_labels (snd (LayerSetUp demo_cfg stamping_loader [Blob_empty, Blob_empty] ?s)) \<longrightarrow>
                (\<forall>a \<in> set secondary_arrays. Ev_mutable_gpu_data i a \<in> set pre)))"
    by blast
  with h show ?thesis by (intro exI [of _ pre]) simp
qed

section \<open>Invariants of the reachable states\<close>

lemma stream_ok_started: "stream_ok cfg (started cfg V tops l ol)"
  by (simp add: stream_ok_def)

lemma stream_ok_transfer:
  assumes "stream_ok cfg s" and "stream s = Stream ((b, arr) # ps)"
  shows "thread s = T_Sync b" "arr = Data" "ps = []" "staging cfg"
  using assms by (auto simp: stream_ok_def split: thread_pc.splits if_splits)

lemma stream_ok_step:
  assumes "stream_ok cfg s" and "step cfg V a s = Some s'"
  shows "stream_ok cfg s'"
  using assms(2)
proof (cases rule: step_cases)
  case (transfer_progress k b arr ps)
  with stream_ok_transfer [OF assms(1) transfer_progress(2)] show ?thesis
    by (simp add: stream_ok_def)
next
  case (transfer_complete b arr ps)
  with stream_ok_transfer [OF assms(1) transfer_complete(2)] show ?thesis
    by (simp add: stream_ok_def)
qed (use assms(1) in \<open>auto simp: stream_ok_def at_CUDA_CHECK_def split: thread_pc.splits if_splits\<close>)

lemma stream_ok_reachable:
  assumes "exec cfg V sched (started cfg V tops l ol) = Some s"
  shows "stream_ok cfg s"
  by (rule exec_invariant [where P = "stream_ok cfg", OF assms stream_ok_started stream_ok_step])

lemma conserved_reachable:
  assumes "exec cfg V sched (started cfg V tops l ol) = Some s"
  shows "conserved cfg s"
  by (rule exec_invariant [where P = "conserved cfg", OF assms conserved_started conserved_step])

lemma conserved_disjoint:
  assumes "conserved cfg s"
  shows "set (filling (thread s)) \<inter> set (prefetch_full s) = {}"
    "set (filling (thread s)) \<inter> set (draining (consumer s)) = {}"
    "set (filling (thread s)) \<inter> set (prefetch_free s) = {}"
    "set (draining (consumer s)) \<inter> set (prefetch_full s) = {}"
    "set (draining (consumer s)) \<inter> set (prefetch_free s) = {}"
    "distinct (prefetch_full s)" "distinct (prefetch_free s)"
    "set (prefetch_free s) \<inter> set (prefetch_full s) = {}"
  using assms by (auto simp: conserved_def slot_refs_def)

lemma staged_ok_started: "staged_ok cfg (started cfg V tops l ol)"
  by (simp add: staged_ok_def)

lemma staged_ok_step:
  assumes "staged_ok cfg s" and "conserved cfg s" and "stream_ok cfg s"
    and "step cfg V a s = Some s'"
  shows "staged_ok cfg s'"
  using assms(4)
proof (cases rule: step_cases)
  case (transfer_progress k b arr ps)
  from stream_ok_transfer [OF assms(3) transfer_progress(2)]
  have "thread s = T_Sync b" "arr = Data" "ps = []" by simp_all
  with conserved_disjoint [OF assms(2)] assms(1) transfer_progress show ?thesis
    by (auto simp: staged_ok_def)
next
  case (transfer_complete b arr ps)
  from stream_ok_transfer [OF assms(3) transfer_complete(2)]
  have "thread s = T_Sync b" "arr = Data" "ps = []" by simp_all
  with conserved_disjoint [OF assms(2)] assms(1) transfer_complete show ?thesis
    by (auto simp: staged_ok_def synced_def)
next
  case (load_begin b)
  with conserved_disjoint [OF assms(2)] assms(1) show ?thesis
    by (auto simp: staged_ok_def)
next
  case (load_end b old l' B)
  with conserved_disjoint [OF assms(2)] assms(1) show ?thesis
    by (auto simp: staged_ok_def)
qed (use assms(1) in \<open>auto simp: staged_ok_def\<close>)

lemma staged_ok_reachable:
  assumes "exec cfg V sched (started cfg V tops l ol) = Some s"
  shows "staged_ok cfg s"
proof -
  have "conserved cfg s \<and> stream_ok cfg s \<and> staged_ok cfg s"
    by (rule exec_invariant
        [where P = "\<lambda>s. conserved cfg s \<and> stream_ok cfg s \<and> staged_ok cfg s", OF assms])
      (auto simp: conserved_started stream_ok_started staged_ok_started
        intro: conserved_step stream_ok_step staged_ok_step)
  then show ?thesis by simp
qed

lemma stream_ok_pending:
  assumes "stream_ok cfg s"
  shows "pending (stream s) = [] \<or> (\<exists>b. thread s = T_Sync b \<and> pending (stream s) = [(b, Data)])"
  using assms by (auto simp: stream_ok_def split: thread_pc.splits if_splits)

text \<open>
  Claim C7, for the primary array. With device staging enabled, the prefetch thread
  enqueues the transfer of the primary array \<open>data_\<close> of the slot on its stream (line
  103), cannot pass the synchronisation while the transfer is on the stream (line 104),
  and pushes the slot only after (line 107); so in every reachable state no slot in the
  full queue or in the consumer's hands has a transfer in flight, and the device copy
  of its primary array is complete. The nine secondary arrays are not transferred: for
  the whole contents of the slot the property fails, as shown after the theorem.
\<close>

theorem staging_synchronised:
  assumes "exec cfg V sched (started cfg V tops l ol) = Some s" and "staging cfg"
  shows "(\<forall>b \<in> set (prefetch_full s) \<union> set (draining (consumer s)).
            (\<forall>arr. (b, arr) \<notin> set (pending (stream s))) \<and> synced (prefetch s b))
     \<and> (\<forall>b. thread s = T_Stage b \<longrightarrow> \<not> aborted s \<longrightarrow>
            step cfg V Worker s
              = Some (s\<lparr>stream := Stream [(b, Data)], thread := T_Sync b\<rparr>))
     \<and> (\<forall>b. thread s = T_Sync b \<longrightarrow> pending (stream s) \<noteq> [] \<longrightarrow>
            step cfg V Worker s = None)
     \<and> (\<forall>b. thread s = T_Push b \<longrightarrow> pending (stream s) = [] \<and> synced (prefetch s b))"
proof -
  have c: "conserved cfg s" by (rule conserved_reachable [OF assms(1)])
  have g: "stream_ok cfg s" by (rule stream_ok_reachable [OF assms(1)])
  have st: "staged_ok cfg s" by (rule staged_ok_reachable [OF assms(1)])
  have 1: "(\<forall>arr. (b, arr) \<notin> set (pending (stream s))) \<and> synced (prefetch s b)"
    if "b \<in> set (prefetch_full s) \<union> set (draining (consumer s))" for b
    using that stream_ok_pending [OF g] conserved_disjoint(1,2) [OF c] st assms(2)
    by (auto simp: staged_ok_def)
  have 2: "step cfg V Worker s = Some (s\<lparr>stream := Stream [(b, Data)], thread := T_Sync b\<rparr>)"
    if "thread s = T_Stage b" "\<not> aborted s" for b
    using that g assms(2) by (simp add: step_def InternalThreadEntry_step_def stream_ok_def)
  have 3: "step cfg V Worker s = None" if "thread s = T_Sync b" "pending (stream s) \<noteq> []" for b
    using that by (cases "stream s")
      (auto simp: step_def InternalThreadEntry_step_def split: list.splits)
  have 4: "pending (stream s) = [] \<and> synced (prefetch s b)" if "thread s = T_Push b" for b
    using that stream_ok_pending [OF g] st assms(2) by (auto simp: staged_ok_def)
  from 1 2 3 4 show ?thesis by blast
qed

lemma demo_push_state:
  "(case exec demo_cfg stamping_loader demo_sched_push demo_start of
      None \<Rightarrow> False
    | Some s \<Rightarrow> thread s = T_Push 0 \<and> cpu_mem (data (prefetch s 0)) = [0])"
  by code_simp

lemma demo_staging_states:
  "(case exec demo_cfg stamping_loader demo_sched_stage demo_start of
      None \<Rightarrow> False
    | Some s \<Rightarrow> thread s = T_Stage 0 \<and> \<not> aborted s)"
  "(case exec demo_cfg stamping_loader demo_sched_sync demo_start of
      None \<Rightarrow> False
    | Some s \<Rightarrow> thread s = T_Sync 0 \<and> pending (stream s) = [(0, Data)])"
  "(case exec demo_cfg stamping_loader demo_sched_full demo_start of
      None \<Rightarrow> False
    | Some s \<Rightarrow> prefetch_full s = [0] \<and> cpu_mem (data (prefetch s 0)) = [0])"
  by code_simp+

theorem staging_synchronised_witness:
  "(\<exists>s. exec demo_cfg stamping_loader demo_sched_stage demo_start = Some s
      \<and> thread s = T_Stage 0
      \<and> step demo_cfg stamping_loader Worker s
          = Some (s\<lparr>stream := Stream [(0, Data)], thread := T_Sync 0\<rparr>))
   \<and> (\<exists>s. exec demo_cfg stamping_loader demo_sched_sync demo_start = Some s
      \<and> thread s = T_Sync 0 \<and> pending (stream s) = [(0, Data)]
      \<and> step demo_cfg stamping_loader Worker s = None)
   \<and> (\<exists>s. exec demo_cfg stamping_loader demo_sched_push demo_start = Some s
      \<and> thread s = T_Push 0 \<and> pending (stream s) = []
      \<and> gpu_mem (data (prefetch s 0)) = [0])
   \<and> (\<exists>s. exec demo_cfg stamping_loader demo_sched_full demo_start = Some s
      \<and> prefetch_full s = [0] \<and> (0, Data) \<notin> set (pending (stream s))
      \<and> gpu_mem (data (prefetch s 0)) = [0])"
proof -
  have g: "staging demo_cfg" by (simp add: staging_def demo_cfg_def)
  from demo_staging_states(1) obtain s1 where
    e1: "exec demo_cfg stamping_loader demo_sched_stage demo_start = Some s1"
    and t1: "thread s1 = T_Stage 0" "\<not> aborted s1"
    by (auto split: option.splits)
  from demo_staging_states(2) obtain s2 where
    e2: "exec demo_cfg stamping_loader demo_sched_sync demo_start = Some s2"
    and t2: "thread s2 = T_Sync 0" "pending (stream s2) = [(0, Data)]"
    by (auto split: option.splits)
  from demo_push_state obtain s3 where
    e3: "exec demo_cfg stamping_loader demo_sched_push demo_start = Some s3"
    and t3: "thread s3 = T_Push 0" "cpu_mem (data (prefetch s3 0)) = [0]"
    by (auto split: option.splits)
  from demo_staging_states(3) obtain s4 where
    e4: "exec demo_cfg stamping_loader demo_sched_full demo_start = Some s4"
    and t4: "prefetch_full s4 = [0]" "cpu_mem (data (prefetch s4 0)) = [0]"
    by (auto split: option.splits)
  from staging_synchronised [OF e1 [unfolded demo_start_def] g] t1
  have 1: "step demo_cfg stamping_loader Worker s1
          = Some (s1\<lparr>stream := Stream [(0, Data)], thread := T_Sync 0\<rparr>)"
    by blast
  from staging_synchronised [OF e2 [unfolded demo_start_def] g] t2
  have 2: "step demo_cfg stamping_loader Worker s2 = None"
    by (metis list.distinct(1))
  from staging_synchronised [OF e3 [unfolded demo_start_def] g] t3
  have 3: "pending (stream s3) = []" "gpu_mem (data (prefetch s3 0)) = [0]"
    by (auto simp: synced_def)
  from staging_synchronised [OF e4 [unfolded demo_start_def] g] t4
  have 4: "(0, Data) \<notin> set (pending (stream s4))" "gpu_mem (data (prefetch s4 0)) = [0]"
    by (auto simp: synced_def)
  from e1 t1 1 e2 t2 2 e3 t3 3 e4 t4 4 show ?thesis by blast
qed

text \<open>
  Claim C7 as worded, for the contents of the slot, does not hold. With staging and
  labels enabled, after one loop iteration slot 0 is in the full queue and the stream is
  empty; the primary array is on the device, but the label array the loader wrote on
  the host has no device copy, and it still has none when the consumer holds the slot.
\<close>

lemma demo_labelled_state:
  "(case exec demo_cfg labelling_loader demo_sched_full demo_start_labelling of
      None \<Rightarrow> False
    | Some s \<Rightarrow> output_labels s \<and> prefetch_full s = [0] \<and> pending (stream s) = []
        \<and> cpu_mem (data (prefetch s 0)) = [0] \<and> gpu_mem (data (prefetch s 0)) = [0]
        \<and> cpu_mem (label (prefetch s 0)) = [100] \<and> gpu_mem (label (prefetch s 0)) = []
        \<and> \<not> contents_synced (prefetch s 0)
        \<and> (case exec demo_cfg labelling_loader
                  [Forward (replicate 10 Blob_empty), Consumer] s of
              None \<Rightarrow> False
            | Some s' \<Rightarrow> draining (consumer s') = [0]
                \<and> \<not> contents_synced (prefetch s' 0)))"
  by code_simp

theorem staging_contents_counterexample:
  "\<exists>s s'. exec demo_cfg labelling_loader demo_sched_full demo_start_labelling = Some s
     \<and> staging demo_cfg \<and> output_labels s
     \<and> 0 \<in> set (prefetch_full s) \<and> pending (stream s) = []
     \<and> synced (prefetch s 0)
     \<and> cpu_mem (label (prefetch s 0)) = [100] \<and> gpu_mem (label (prefetch s 0)) = []
     \<and> \<not> contents_synced (prefetch s 0)
     \<and> exec demo_cfg labelling_loader [Forward (replicate 10 Blob_empty), Consumer] s
         = Some s'
     \<and> 0 \<in> set (draining (consumer s')) \<and> \<not> contents_synced (prefetch s' 0)"
proof -
  from demo_labelled_state obtain s s' where
    "exec demo_cfg labelling_loader demo_sched_full demo_start_labelling = Some s"
    "output_labels s" "prefetch_full s = [0]" "pending (stream s) = []"
    "cpu_mem (data (prefetch s 0)) = [0]" "gpu_mem (data (prefetch s 0)) = [0]"
    "cpu_mem (label (prefetch s 0)) = [100]" "gpu_mem (label (prefetch s 0)) = []"
    "\<not> contents_synced (prefetch s 0)"
    "exec demo_cfg labelling_loader [Forward (replicate 10 Blob_empty), Consumer] s
       = Some s'"
    "draining (consumer s') = [0]" "\<not> contents_synced (prefetch s' 0)"
    by (auto split: option.splits)
  moreover have "staging demo_cfg" by (simp add: staging_def demo_cfg_def)
  ultimately show ?thesis
    by (intro exI [of _ s] exI [of _ s']) (simp add: synced_def del: exec.simps)
qed

lemma same_host_refl [simp]: "same_host B B"
  by (simp add: same_host_def)

lemma host_part_gpu_update [simp]: "host_part (x\<lparr>gpu_mem := g\<rparr>) = host_part x"
  by (simp add: host_part_def)

lemma same_host_blob_update:
  assumes "\<And>x. host_part (f x) = host_part x"
  shows "same_host (blob_update arr f B) B' = same_host B B'"
proof -
  have "host_part (blob_of a (blob_update arr f B)) = host_part (blob_of a B)" for a
    using assms by (cases arr; cases a) simp_all
  then show ?thesis by (simp add: same_host_def)
qed

lemma complete_ok_started: "complete_ok (started cfg V tops l ol)"
  by (simp add: complete_ok_def)

lemma complete_ok_mono:
  assumes "complete_ok s"
    and "set (prefetch_full s') \<union> set (draining (consumer s')) \<union> set (unpublished (thread s'))
           \<subseteq> set (prefetch_full s) \<union> set (draining (consumer s)) \<union> set (unpublished (thread s))"
    and "\<And>b. b \<in> set (prefetch_full s') \<union> set (draining (consumer s'))
            \<union> set (unpublished (thread s')) \<Longrightarrow> same_host (prefetch s' b) = same_host (prefetch s b)"
    and "set (trace s) \<subseteq> set (trace s')"
  shows "complete_ok s'"
  unfolding complete_ok_def
proof
  fix b
  assume b: "b \<in> set (prefetch_full s') \<union> set (draining (consumer s'))
            \<union> set (unpublished (thread s'))"
  with assms(2) have "b \<in> set (prefetch_full s) \<union> set (draining (consumer s))
      \<union> set (unpublished (thread s))"
    by blast
  with assms(1) obtain B where "Ev_load_batch B \<in> set (trace s)" "same_host (prefetch s b) B"
    unfolding complete_ok_def by blast
  with assms(3) [OF b] assms(4) show "\<exists>B. Ev_load_batch B \<in> set (trace s') \<and> same_host (prefetch s' b) B"
    by auto
qed

lemma complete_ok_step:
  assumes "complete_ok s" and "conserved cfg s" and "stream_ok cfg s"
    and "step cfg V a s = Some s'"
  shows "complete_ok s'"
  using assms(4)
proof (cases rule: step_cases)
  case (transfer_progress k b arr ps)
  then show ?thesis
    by (intro complete_ok_mono [OF assms(1)]) (auto simp: same_host_blob_update)
next
  case (transfer_complete b arr ps)
  then show ?thesis
    by (intro complete_ok_mono [OF assms(1)]) (auto simp: same_host_blob_update)
next
  case (load_begin b)
  with conserved_disjoint [OF assms(2)] show ?thesis
    by (intro complete_ok_mono [OF assms(1)]) auto
next
  case (load_end b old l' B)
  show ?thesis
    unfolding complete_ok_def
  proof
    fix x
    assume x: "x \<in> set (prefetch_full s') \<union> set (draining (consumer s'))
            \<union> set (unpublished (thread s'))"
    show "\<exists>B. Ev_load_batch B \<in> set (trace s') \<and> same_host (prefetch s' x) B"
    proof (cases "x = b")
      case True
      with load_end have "Ev_load_batch B \<in> set (trace s')" "same_host (prefetch s' x) B"
        by simp_all
      then show ?thesis by blast
    next
      case False
      with x load_end have "x \<in> set (prefetch_full s) \<union> set (draining (consumer s))
            \<union> set (unpublished (thread s))" by simp
      with assms(1) obtain B' where "Ev_load_batch B' \<in> set (trace s)"
        "same_host (prefetch s x) B'"
        unfolding complete_ok_def by blast
      with False load_end have "Ev_load_batch B' \<in> set (trace s')"
        "same_host (prefetch s' x) B'"
        by simp_all
      then show ?thesis by blast
    qed
  qed
next
  case entry_gpu
  then show ?thesis by (intro complete_ok_mono [OF assms(1)]) simp_all
next
  case entry_cpu
  then show ?thesis by (intro complete_ok_mono [OF assms(1)]) simp_all
next
  case loop_stop
  then show ?thesis by (intro complete_ok_mono [OF assms(1)]) simp_all
next
  case loop_go
  then show ?thesis by (intro complete_ok_mono [OF assms(1)]) simp_all
next
  case (pop b rest)
  then show ?thesis by (intro complete_ok_mono [OF assms(1)]) simp_all
next
  case interrupted
  then show ?thesis by (intro complete_ok_mono [OF assms(1)]) simp_all
next
  case (stage_gpu b ps)
  then show ?thesis by (intro complete_ok_mono [OF assms(1)]) simp_all
next
  case (stage_cpu b)
  then show ?thesis by (intro complete_ok_mono [OF assms(1)]) simp_all
next
  case (sync b)
  then show ?thesis by (intro complete_ok_mono [OF assms(1)]) simp_all
next
  case (push b)
  then show ?thesis by (intro complete_ok_mono [OF assms(1)]) simp_all
next
  case (cleanup_gpu ps)
  then show ?thesis by (intro complete_ok_mono [OF assms(1)]) simp_all
next
  case cleanup_cpu
  then show ?thesis by (intro complete_ok_mono [OF assms(1)]) simp_all
next
  case cuda_failure
  then show ?thesis by (intro complete_ok_mono [OF assms(1)]) simp_all
next
  case (forward tops b rest)
  then show ?thesis by (intro complete_ok_mono [OF assms(1)]) auto
next
  case (copy b tops tops')
  then show ?thesis by (intro complete_ok_mono [OF assms(1)]) simp_all
next
  case (return b tops')
  then show ?thesis by (intro complete_ok_mono [OF assms(1)]) auto
next
  case interrupt
  then show ?thesis by (intro complete_ok_mono [OF assms(1)]) simp_all
qed

lemma complete_ok_reachable:
  assumes "exec cfg V sched (started cfg V tops l ol) = Some s"
  shows "complete_ok s"
proof -
  have "conserved cfg s \<and> stream_ok cfg s \<and> complete_ok s"
    by (rule exec_invariant
        [where P = "\<lambda>s. conserved cfg s \<and> stream_ok cfg s \<and> complete_ok s", OF assms])
      (auto simp: conserved_started stream_ok_started complete_ok_started
        intro: conserved_step stream_ok_step complete_ok_step)
  then show ?thesis by simp
qed

text \<open>
  Claim C3. In every reachable state the slot the prefetch thread works on and the slot
  the consumer works on are different and in neither queue; the slot the consumer reads
  holds what a finished \<open>load_batch\<close> left there, never a half-written batch; and no
  step of the pipeline changes a slot while the consumer holds it.
\<close>

theorem no_concurrent_mutation:
  assumes "exec cfg V sched (started cfg V tops l ol) = Some s"
  shows "set (filling (thread s)) \<inter> set (draining (consumer s)) = {}
     \<and> (set (filling (thread s)) \<union> set (draining (consumer s)))
          \<inter> (set (prefetch_free s) \<union> set (prefetch_full s)) = {}
     \<and> (\<forall>b \<in> set (draining (consumer s)).
           \<exists>B. Ev_load_batch B \<in> set (trace s) \<and> same_host (prefetch s b) B)
     \<and> (\<forall>a s'. step cfg V a s = Some s' \<longrightarrow>
           (\<forall>b \<in> set (draining (consumer s)). prefetch s' b = prefetch s b))"
proof -
  have c: "conserved cfg s" by (rule conserved_reachable [OF assms])
  have g: "stream_ok cfg s" by (rule stream_ok_reachable [OF assms])
  have k: "complete_ok s" by (rule complete_ok_reachable [OF assms])
  have 1: "set (filling (thread s)) \<inter> set (draining (consumer s)) = {}"
    by (rule conserved_disjoint(2) [OF c])
  have 2: "(set (filling (thread s)) \<union> set (draining (consumer s)))
          \<inter> (set (prefetch_free s) \<union> set (prefetch_full s)) = {}"
    using conserved_disjoint [OF c] by blast
  have 3: "\<exists>B. Ev_load_batch B \<in> set (trace s) \<and> same_host (prefetch s b) B"
    if "b \<in> set (draining (consumer s))" for b
    using k that by (simp add: complete_ok_def)
  have 4: "prefetch s' b = prefetch s b"
    if "step cfg V a s = Some s'" "b \<in> set (draining (consumer s))" for a s' b
    using that(1)
  proof (cases rule: step_cases)
    case (transfer_progress k b' arr ps)
    with stream_ok_transfer(1) [OF g transfer_progress(2)] 1 that(2) show ?thesis by auto
  next
    case (transfer_complete b' arr ps)
    with stream_ok_transfer(1) [OF g transfer_complete(2)] 1 that(2) show ?thesis by auto
  next
    case (load_begin b')
    with 1 that(2) show ?thesis by auto
  next
    case (load_end b' old l' B)
    with 1 that(2) show ?thesis by auto
  qed simp_all
  from 1 2 3 4 show ?thesis by blast
qed

lemma demo_both_state:
  "(case exec demo_cfg stamping_loader demo_sched_both demo_start of
      None \<Rightarrow> False
    | Some s \<Rightarrow> filling (thread s) = [1] \<and> draining (consumer s) = [0]
        \<and> cpu_mem (data (prefetch s 1)) = [] \<and> cpu_mem (data (prefetch s 0)) = [0]
        \<and> (case step demo_cfg stamping_loader Worker s of
              None \<Rightarrow> False
            | Some s' \<Rightarrow> cpu_mem (data (prefetch s' 1)) = [1]))"
  by code_simp

theorem no_concurrent_mutation_witness:
  "\<exists>s s'. exec demo_cfg stamping_loader demo_sched_both demo_start = Some s
     \<and> filling (thread s) = [1] \<and> draining (consumer s) = [0]
     \<and> step demo_cfg stamping_loader Worker s = Some s'
     \<and> cpu_mem (data (prefetch s' 1)) \<noteq> cpu_mem (data (prefetch s 1))
     \<and> prefetch s' 0 = prefetch s 0
     \<and> (\<exists>B. Ev_load_batch B \<in> set (trace s) \<and> same_host (prefetch s 0) B)"
proof -
  from demo_both_state obtain s s' where
    e: "exec demo_cfg stamping_loader demo_sched_both demo_start = Some s"
    and f: "filling (thread s) = [1]" "draining (consumer s) = [0]"
      "cpu_mem (data (prefetch s 1)) = []"
    and w: "step demo_cfg stamping_loader Worker s = Some s'"
      "cpu_mem (data (prefetch s' 1)) = [1]"
    by (auto split: option.splits)
  from no_concurrent_mutation [OF e [unfolded demo_start_def]] e f w show ?thesis
    by (intro exI [of _ s] exI [of _ s']) auto
qed

lemma blob_of_blob_update_other:
  "arr \<noteq> a \<Longrightarrow> blob_of a (blob_update arr f B) = blob_of a B"
  by (cases arr; cases a) simp_all

lemma host_part_ops:
  assumes "host_part src = host_part src'"
  shows "top_ReshapeLike i src = top_ReshapeLike i src'"
    and "top_copy i src = top_copy i src'"
  using assms
  by (auto simp: host_part_def top_ReshapeLike_def top_copy_def ReshapeLike_def
      caffe_copy_def Let_def fun_eq_iff)

lemma Forward_cpu_copy_host:
  assumes "same_host B B'"
  shows "Forward_cpu_copy labels B t = Forward_cpu_copy labels B' t"
proof -
  have h: "host_part (blob_of a B) = host_part (blob_of a B')" for a
    using assms by (simp add: same_host_def)
  note o = host_part_ops [OF h [of Data, simplified]]
    host_part_ops [OF h [of Label, simplified]]
    host_part_ops [OF h [of Label1, simplified]]
    host_part_ops [OF h [of Label2, simplified]]
    host_part_ops [OF h [of Label3, simplified]]
    host_part_ops [OF h [of Label4, simplified]]
    host_part_ops [OF h [of Label5, simplified]]
    host_part_ops [OF h [of Label6, simplified]]
    host_part_ops [OF h [of Imageindex, simplified]]
    host_part_ops [OF h [of Windowindex, simplified]]
  show ?thesis unfolding Forward_cpu_copy_def o ..
qed

text \<open>
  Claim C10. Staging transfers the primary array only: the prefetch thread enqueues
  exactly the transfer of \<open>data_\<close>, every transfer on the stream is one of a primary
  array, and apart from \<open>load_batch\<close> itself no step changes any of the nine secondary
  arrays of any slot, on the host or on the device, whether labels are enabled or not.
  What \<open>Forward_cpu\<close> copies out of a slot is determined by the host side of the slot
  alone, so the secondary arrays reach the consumer through the host copy only.
\<close>

theorem staging_primary_only:
  assumes "exec cfg V sched (started cfg V tops l ol) = Some s"
    and "step cfg V a s = Some s'"
    and "\<not> in_load_batch a (thread s)"
  shows "(\<forall>j. \<forall>arr \<in> set secondary_arrays.
            blob_of arr (prefetch s' j) = blob_of arr (prefetch s j))
     \<and> (\<forall>x \<in> set (pending (stream s')). snd x = Data)
     \<and> (\<forall>b. a = Worker \<longrightarrow> thread s = T_Stage b \<longrightarrow> staging cfg \<longrightarrow>
            pending (stream s') = [(b, Data)])
     \<and> (\<forall>B. same_host (prefetch s j) B \<longrightarrow>
            Forward_cpu_copy (output_labels s) (prefetch s j) t
              = Forward_cpu_copy (output_labels s) B t)"
proof -
  have g: "stream_ok cfg s" by (rule stream_ok_reachable [OF assms(1)])
  have g': "stream_ok cfg s'" by (rule stream_ok_step [OF g assms(2)])
  have 1: "blob_of arr (prefetch s' j) = blob_of arr (prefetch s j)"
    if "arr \<in> set secondary_arrays" for j arr
    using assms(2)
  proof (cases rule: step_cases)
    case (transfer_progress k b arr' ps)
    with stream_ok_transfer(2) [OF g transfer_progress(2)] that show ?thesis
      by (auto simp: blob_of_blob_update_other secondary_arrays_def)
  next
    case (transfer_complete b arr' ps)
    with stream_ok_transfer(2) [OF g transfer_complete(2)] that show ?thesis
      by (auto simp: blob_of_blob_update_other secondary_arrays_def)
  next
    case (load_begin b)
    with assms(3) show ?thesis by (simp add: in_load_batch_def)
  next
    case (load_end b old l' B)
    with assms(3) show ?thesis by (simp add: in_load_batch_def)
  qed simp_all
  have 2: "snd x = Data" if "x \<in> set (pending (stream s'))" for x
    using stream_ok_pending [OF g'] that by auto
  have 3: "pending (stream s') = [(b, Data)]"
    if "a = Worker" "thread s = T_Stage b" "staging cfg" for b
    using assms(2)
    by (cases rule: step_cases) (use that g in \<open>auto simp: stream_ok_def at_CUDA_CHECK_def\<close>)
  have 4: "Forward_cpu_copy (output_labels s) (prefetch s j) t
      = Forward_cpu_copy (output_labels s) B t" if "same_host (prefetch s j) B" for B
    by (rule Forward_cpu_copy_host [OF that])
  from 1 2 3 4 show ?thesis by blast
qed

lemma demo_stage_state:
  "(case exec demo_cfg stamping_loader demo_sched_stage demo_start_labels of
      None \<Rightarrow> False
    | Some s \<Rightarrow> thread s = T_Stage 0 \<and> output_labels s
        \<and> (case step demo_cfg stamping_loader Worker s of
              None \<Rightarrow> False
            | Some s' \<Rightarrow> thread s' = T_Sync 0))"
  by code_simp

theorem staging_primary_only_witness:
  "\<exists>s s'. exec demo_cfg stamping_loader demo_sched_stage demo_start_labels = Some s
     \<and> output_labels s \<and> thread s = T_Stage 0
     \<and> step demo_cfg stamping_loader Worker s = Some s' \<and> thread s' = T_Sync 0
     \<and> pending (stream s') = [(0, Data)]
     \<and> label (prefetch s' 0) = label (prefetch s 0)
     \<and> windowindex (prefetch s' 0) = windowindex (prefetch s 0)
     \<and> Forward_cpu_copy True (prefetch s 0) (replicate 10 Blob_empty)
         = Forward_cpu_copy True
             ((prefetch s 0)\<lparr>label := (label (prefetch s 0))\<lparr>gpu_mem := [7]\<rparr>\<rparr>)
             (replicate 10 Blob_empty)"
proof -
  let ?t = "replicate 10 (Blob_empty :: nat Blob)"
  from demo_stage_state obtain s s' where
    e: "exec demo_cfg stamping_loader demo_sched_stage demo_start_labels = Some s"
    and f: "thread s = T_Stage 0" "output_labels s"
    and w: "step demo_cfg stamping_loader Worker s = Some s'" "thread s' = T_Sync 0"
    by (auto split: option.splits)
  have n: "\<not> in_load_batch Worker (thread s)" using f by (simp add: in_load_batch_def)
  have g: "staging demo_cfg" by (simp add: staging_def demo_cfg_def)
  have m: "Label \<in> set secondary_arrays" "Windowindex \<in> set secondary_arrays"
    by (simp_all add: secondary_arrays_def)
  let ?B = "(prefetch s 0)\<lparr>label := (label (prefetch s 0))\<lparr>gpu_mem := [7]\<rparr>\<rparr>"
  have h: "same_host (prefetch s 0) ?B"
    unfolding same_host_def
  proof
    fix a show "host_part (blob_of a (prefetch s 0)) = host_part (blob_of a ?B)"
      by (cases a) (simp_all add: host_part_def)
  qed
  from staging_primary_only [OF e [unfolded demo_start_labels_def] w(1) n, of 0 ?t] have
    a: "\<forall>j. \<forall>arr \<in> set secondary_arrays.
            blob_of arr (prefetch s' j) = blob_of arr (prefetch s j)"
    and b: "\<forall>b. Worker = Worker \<longrightarrow> thread s = T_Stage b \<longrightarrow> staging demo_cfg \<longrightarrow>
            pending (stream s') = [(b, Data)]"
    and c: "\<forall>B. same_host (prefetch s 0) B \<longrightarrow>
            Forward_cpu_copy (output_labels s) (prefetch s 0) ?t
              = Forward_cpu_copy (output_labels s) B ?t"
    by blast+
  from a m have "blob_of Label (prefetch s' 0) = blob_of Label (prefetch s 0)"
    "blob_of Windowindex (prefetch s' 0) = blob_of Windowindex (prefetch s 0)"
    by blast+
  moreover from b f g have "pending (stream s') = [(0, Data)]" by blast
  moreover from c h f(2) have
    "Forward_cpu_copy True (prefetch s 0) ?t = Forward_cpu_copy True ?B ?t"
    by simp
  ultimately show ?thesis using e f w
    by (intro exI [of _ s] exI [of _ s']) simp
qed

text \<open>
  Claim C8. When the prefetch thread is blocked in the \<open>pop\<close> of the empty free queue
  and its interruption is requested, its next step leaves the loop without aborting, and
  the step after ends the thread function with the stream destroyed (when device
  staging is enabled); queues, slots and trace are untouched.
\<close>

theorem expected_cancellation:
  assumes "exec cfg V sched (started cfg V tops l ol) = Some s"
    and "thread s = T_Pop" and "prefetch_free s = []"
    and "interruption_requested s" and "\<not> aborted s"
  shows "\<exists>s2. exec cfg V [Worker, Worker] s = Some s2
     \<and> step cfg V Worker s = Some (s\<lparr>thread := T_Cleanup\<rparr>)
     \<and> thread s2 = T_Done \<and> \<not> aborted s2
     \<and> stream s2 = (if staging cfg then Destroyed else stream s)
     \<and> prefetch_free s2 = prefetch_free s \<and> prefetch_full s2 = prefetch_full s
     \<and> prefetch s2 = prefetch s \<and> consumer s2 = consumer s \<and> trace s2 = trace s"
proof -
  have g: "stream_ok cfg s" by (rule stream_ok_reachable [OF assms(1)])
  have 1: "step cfg V Worker s = Some (s\<lparr>thread := T_Cleanup\<rparr>)"
    using assms(2-5)
    by (simp add: step_def InternalThreadEntry_step_def BlockingQueue_pop_def)
  show ?thesis
  proof (cases "staging cfg")
    case True
    with g assms(2) have "stream s = Stream []" by (simp add: stream_ok_def)
    with True assms(5) 1 show ?thesis
      by (simp add: step_def InternalThreadEntry_step_def)
  next
    case False
    with assms(5) 1 show ?thesis
      by (simp add: step_def InternalThreadEntry_step_def)
  qed
qed

lemma demo_blocked_state:
  "(case exec demo_cfg stamping_loader demo_sched_blocked demo_start of
      None \<Rightarrow> False
    | Some s \<Rightarrow> thread s = T_Pop \<and> prefetch_free s = [] \<and> interruption_requested s
        \<and> \<not> aborted s \<and> prefetch_full s = [0, 1])"
  by code_simp

theorem expected_cancellation_witness:
  "\<exists>s s2. exec demo_cfg stamping_loader demo_sched_blocked demo_start = Some s
     \<and> thread s = T_Pop \<and> prefetch_free s = [] \<and> interruption_requested s
     \<and> exec demo_cfg stamping_loader [Worker, Worker] s = Some s2
     \<and> thread s2 = T_Done \<and> \<not> aborted s2 \<and> stream s2 = Destroyed
     \<and> prefetch_full s2 = [0, 1]"
proof -
  from demo_blocked_state obtain s where
    e: "exec demo_cfg stamping_loader demo_sched_blocked demo_start = Some s"
    and f: "thread s = T_Pop" "prefetch_free s = []" "interruption_requested s"
      "\<not> aborted s" "prefetch_full s = [0, 1]"
    by (auto split: option.splits)
  have g: "staging demo_cfg" by (simp add: staging_def demo_cfg_def)
  from expected_cancellation [OF e [unfolded demo_start_def] f(1-4)] obtain s2 where
    x: "exec demo_cfg stamping_loader [Worker, Worker] s = Some s2" "thread s2 = T_Done"
      "\<not> aborted s2" "stream s2 = (if staging demo_cfg then Destroyed else stream s)"
      "prefetch_full s2 = prefetch_full s"
    by blast
  with g e f show ?thesis
    by (intro exI [of _ s] exI [of _ s2]) (simp del: exec.simps)
qed

section \<open>Ordering and determinism\<close>

lemma loaded_append [simp]: "loaded (xs @ ys) = loaded xs @ loaded ys"
  by (induction xs rule: loaded.induct) simp_all

lemma forwarded_append [simp]: "forwarded (xs @ ys) = forwarded xs @ forwarded ys"
  by (induction xs rule: forwarded.induct) simp_all

lemma loaded_Nil: "(\<And>B. Ev_load_batch B \<notin> set es) \<Longrightarrow> loaded es = []"
  by (induction es rule: loaded.induct) auto

lemma forwarded_Nil: "(\<And>t. Ev_Forward_cpu t \<notin> set es) \<Longrightarrow> forwarded es = []"
  by (induction es rule: forwarded.induct) auto

lemma trace_started:
  "loaded (trace (started cfg V tops l ol)) = []"
  "forwarded (trace (started cfg V tops l ol)) = []"
  by (rule loaded_Nil forwarded_Nil,
      auto simp: started_def trace_LayerSetUp BasePrefetchingDataLayer_def)+


lemma map_mod_upt: "map (\<lambda>i. i mod N) [0..<N] = [0..<N]"
  by (rule nth_equalityI) simp_all

lemma round_robin_started: "round_robin cfg (started cfg V tops l ol)"
  by (simp add: round_robin_def published_def trace_started map_mod_upt)

lemma map_upt_eq_Cons:
  "map f [a..<b] = x # r \<longleftrightarrow> a < b \<and> x = f a \<and> r = map f [Suc a..<b]"
  by (cases "a < b") (auto simp: upt_conv_Cons)

lemma round_robin_same:
  assumes "round_robin cfg s"
    and "trace s' = trace s" "prefetch_free s' = prefetch_free s"
    and "prefetch_full s' = prefetch_full s"
    and "unpublished (thread s') = unpublished (thread s)"
    and "filling (thread s') = filling (thread s)"
    and "draining (consumer s') = draining (consumer s)"
  shows "round_robin cfg s'"
  using assms by (simp add: round_robin_def published_def)

lemma round_robin_step:
  assumes rr: "round_robin cfg s" and st: "step cfg V a s = Some s'"
  shows "round_robin cfg s'"
  using st
proof (cases rule: step_cases)
  case (pop b rest)
  have p: "published s' = published s" using pop by (simp add: published_def)
  from rr pop have f: "map (\<lambda>i. i mod PREFETCH_COUNT cfg)
      [published s..<length (forwarded (trace s)) + PREFETCH_COUNT cfg] = b # rest"
    by (simp add: round_robin_def Let_def)
  then have "published s < length (forwarded (trace s)) + PREFETCH_COUNT cfg"
    "b = published s mod PREFETCH_COUNT cfg"
    "rest = map (\<lambda>i. i mod PREFETCH_COUNT cfg)
      [Suc (published s)..<length (forwarded (trace s)) + PREFETCH_COUNT cfg]"
    by (simp_all add: map_upt_eq_Cons)
  with rr pop p show ?thesis
    by (simp add: round_robin_def Let_def)
next
  case (load_begin b)
  with rr show ?thesis by (intro round_robin_same [OF rr]) simp_all
next
  case (load_end b old l' B)
  have p: "published s' = published s" using load_end by (simp add: published_def)
  with rr load_end show ?thesis
    by (simp add: round_robin_def Let_def)
next
  case (push b)
  from rr push have m: "1 \<le> length (loaded (trace s))"
    by (simp add: round_robin_def Let_def)
  then have p: "published s' = Suc (published s)" using push by (simp add: published_def)
  from rr push have "b = published s mod PREFETCH_COUNT cfg"
    "length (forwarded (trace s)) + length (draining (consumer s)) \<le> published s"
    by (simp_all add: round_robin_def Let_def)
  with rr push p show ?thesis
    by (simp add: round_robin_def Let_def)
next
  case (forward tops b rest)
  have p: "published s' = published s" using forward by (simp add: published_def)
  from rr forward have f: "map (\<lambda>i. i mod PREFETCH_COUNT cfg)
      [length (forwarded (trace s))..<published s] = b # rest"
    by (simp add: round_robin_def Let_def)
  then have "length (forwarded (trace s)) < published s"
    "b = length (forwarded (trace s)) mod PREFETCH_COUNT cfg"
    "rest = map (\<lambda>i. i mod PREFETCH_COUNT cfg) [Suc (length (forwarded (trace s)))..<published s]"
    by (simp_all add: map_upt_eq_Cons)
  with rr forward p show ?thesis
    by (simp add: round_robin_def Let_def)
next
  case (copy b tops tops')
  with rr show ?thesis by (intro round_robin_same [OF rr]) simp_all
next
  case (return b tops')
  have p: "published s' = published s" using return by (simp add: published_def)
  from rr return have "b = length (forwarded (trace s)) mod PREFETCH_COUNT cfg"
    "published s + length (filling (thread s))
       \<le> length (forwarded (trace s)) + PREFETCH_COUNT cfg"
    by (simp_all add: round_robin_def Let_def)
  with rr return p show ?thesis
    by (simp add: round_robin_def Let_def)
qed (rule round_robin_same [OF rr]; simp)+

lemma sequential_state_Suc:
  "fst (sequential_state cfg V s0 (Suc k))
     = fst (load_batch V (fst (sequential_state cfg V s0 k))
              (snd (sequential_state cfg V s0 k) (k mod PREFETCH_COUNT cfg)))"
  "snd (sequential_state cfg V s0 (Suc k))
     = (snd (sequential_state cfg V s0 k))
         (k mod PREFETCH_COUNT cfg := stage cfg (sequential_batch cfg V s0 k))"
  by (simp_all add: Let_def split_beta sequential_batch_def)

declare sequential_state.simps(2) [simp del]

lemma sequential_batch_eq:
  "sequential_batch cfg V s0 k
     = snd (load_batch V (fst (sequential_state cfg V s0 k))
              (snd (sequential_state cfg V s0 k) (k mod PREFETCH_COUNT cfg)))"
  by (simp add: sequential_batch_def split_beta)


lemma set_gpu_again:
  "\<exists>g'. blob_update Data (\<lambda>x. x\<lparr>gpu_mem := f x\<rparr>) (set_gpu g B) = set_gpu g' B"
  by (rule exI [of _ "f ((data B)\<lparr>gpu_mem := g\<rparr>)"]) (simp add: set_gpu_def)

lemma set_gpu_id: "B = set_gpu (gpu_mem (data B)) B"
  by (simp add: set_gpu_def)

lemma synced_set_gpu: "synced (set_gpu g B) \<Longrightarrow> staging cfg \<Longrightarrow> set_gpu g B = stage cfg B"
  by (auto simp: synced_def set_gpu_def stage_def)

lemma follows_started: "follows cfg V (started cfg V tops l ol) (started cfg V tops l ol)"
  by (simp add: follows_def published_def trace_started)

lemma follows_same:
  assumes "follows cfg V s0 s"
    and "loaded (trace s') = loaded (trace s)" "loader s' = loader s"
    and "prefetch s' = prefetch s" "thread s' = thread s"
  shows "follows cfg V s0 s'"
  using assms by (simp add: follows_def published_def Let_def)

lemma held_content_idle:
  "rewritten pc = [] \<Longrightarrow> held_content cfg expected B slots pc"
  by (cases pc) simp_all

lemma follows_idle:
  assumes "follows cfg V s0 s"
    and "loaded (trace s') = loaded (trace s)" "loader s' = loader s"
    and "prefetch s' = prefetch s" 
    and "rewritten (thread s) = []" "rewritten (thread s') = []"
    and "unpublished (thread s) = []" "unpublished (thread s') = []"
  shows "follows cfg V s0 s'"
  using assms by (simp add: follows_def published_def Let_def held_content_idle)

lemma follows_step:
  assumes fo: "follows cfg V s0 s" and rr: "round_robin cfg s"
    and so: "stream_ok cfg s" and sg: "staged_ok cfg s"
    and st: "step cfg V a s = Some s'"
  shows "follows cfg V s0 s'"
  using st
proof (cases rule: step_cases)
  case entry_gpu
  with fo show ?thesis by (intro follows_idle [OF fo]) simp_all
next
  case entry_cpu
  with fo show ?thesis by (intro follows_idle [OF fo]) simp_all
next
  case loop_stop
  with fo show ?thesis by (intro follows_idle [OF fo]) simp_all
next
  case loop_go
  with fo show ?thesis by (intro follows_idle [OF fo]) simp_all
next
  case (pop b rest)
  with fo show ?thesis by (intro follows_idle [OF fo]) simp_all
next
  case interrupted
  with fo show ?thesis by (intro follows_idle [OF fo]) simp_all
next
  case (load_begin b)
  with fo show ?thesis
    by (simp add: follows_def published_def Let_def)
next
  case (load_end b old l' B)
  from rr load_end have b: "b = published s mod PREFETCH_COUNT cfg"
    by (simp add: round_robin_def Let_def)
  from load_end have p: "published s = length (loaded (trace s))"
    "published s' = length (loaded (trace s))"
    by (simp_all add: published_def)
  from fo load_end have "old = snd (sequential_state cfg V s0 (published s)) b"
    "loader s = fst (sequential_state cfg V s0 (length (loaded (trace s))))"
    by (simp_all add: follows_def Let_def)
  with load_end(3) b p have "l' = fst (sequential_state cfg V s0 (Suc (length (loaded (trace s)))))"
    "B = sequential_batch cfg V s0 (length (loaded (trace s)))"
    by (simp_all add: sequential_state_Suc sequential_batch_eq)
  with fo load_end p show ?thesis
    by (simp add: follows_def Let_def)
next
  case (stage_gpu b ps)
  then have p: "published s' = published s" by (simp add: published_def)
  from fo stage_gpu have "prefetch s b = sequential_batch cfg V s0 (published s)"
    by (simp add: follows_def Let_def)
  then have "\<exists>g. prefetch s b = set_gpu g (sequential_batch cfg V s0 (published s))"
    using set_gpu_id by metis
  with fo stage_gpu p show ?thesis
    by (simp add: follows_def Let_def)
next
  case (stage_cpu b)
  then have p: "published s' = published s" by (simp add: published_def)
  with fo stage_cpu show ?thesis
    by (simp add: follows_def Let_def stage_def)
next
  case (sync b)
  then have p: "published s' = published s" by (simp add: published_def)
  from so sync have g: "staging cfg" by (simp add: stream_ok_def)
  with sg sync have "synced (prefetch s b)" by (simp add: staged_ok_def)
  moreover from fo sync obtain g where
    "prefetch s b = set_gpu g (sequential_batch cfg V s0 (published s))"
    by (auto simp: follows_def Let_def)
  ultimately have "prefetch s b = stage cfg (sequential_batch cfg V s0 (published s))"
    using synced_set_gpu [OF _ g] by metis
  with fo sync p show ?thesis
    by (simp add: follows_def Let_def)
next
  case (push b)
  from rr push have m: "1 \<le> length (loaded (trace s))" and b: "b = published s mod PREFETCH_COUNT cfg"
    by (simp_all add: round_robin_def Let_def)
  then have p: "published s' = Suc (published s)" using push by (simp add: published_def)
  from push have f: "prefetch s' = prefetch s" "trace s' = trace s" "thread s' = T_LoopHead"
    "loader s' = loader s"
    by simp_all
  from fo push(2) b have "prefetch s j = snd (sequential_state cfg V s0 (Suc (published s))) j"
    for j
    by (simp add: follows_def Let_def sequential_state_Suc)
  moreover from fo have "loader s = fst (sequential_state cfg V s0 (length (loaded (trace s))))"
    "loaded (trace s) = map (sequential_batch cfg V s0) [0..<length (loaded (trace s))]"
    by (simp_all add: follows_def Let_def)
  ultimately show ?thesis
    unfolding follows_def Let_def f p by simp
next
  case (cleanup_gpu ps)
  with fo show ?thesis by (intro follows_idle [OF fo]) simp_all
next
  case cleanup_cpu
  with fo show ?thesis by (intro follows_idle [OF fo]) simp_all
next
  case cuda_failure
  with fo show ?thesis by (intro follows_same [OF fo]) simp_all
next
  case (transfer_progress k b arr ps)
  note t = stream_ok_transfer [OF so transfer_progress(2)]
  from fo t(1) obtain g where g: "prefetch s b = set_gpu g (sequential_batch cfg V s0 (published s))"
    by (auto simp: follows_def Let_def)
  from transfer_progress t have f: "trace s' = trace s" "thread s' = T_Sync b"
    "loader s' = loader s" "\<And>j. j \<noteq> b \<Longrightarrow> prefetch s' j = prefetch s j"
    "prefetch s' b = blob_update Data
        (\<lambda>x. x\<lparr>gpu_mem := take k (cpu_mem x) @ drop k (gpu_mem x)\<rparr>) (prefetch s b)"
    by simp_all
  have p: "published s' = published s" using f t by (simp add: published_def)
  from set_gpu_again [of _ g "sequential_batch cfg V s0 (published s)"] f(5) g
  have "\<exists>g'. prefetch s' b = set_gpu g' (sequential_batch cfg V s0 (published s))"
    by simp
  with fo t(1) f(4) show ?thesis
    unfolding follows_def Let_def f(1,2,3) p by auto
next
  case (transfer_complete b arr ps)
  note t = stream_ok_transfer [OF so transfer_complete(2)]
  from fo t(1) obtain g where g: "prefetch s b = set_gpu g (sequential_batch cfg V s0 (published s))"
    by (auto simp: follows_def Let_def)
  from transfer_complete t have f: "trace s' = trace s" "thread s' = T_Sync b"
    "loader s' = loader s" "\<And>j. j \<noteq> b \<Longrightarrow> prefetch s' j = prefetch s j"
    "prefetch s' b = blob_update Data (\<lambda>x. x\<lparr>gpu_mem := cpu_mem x\<rparr>) (prefetch s b)"
    by simp_all
  have p: "published s' = published s" using f t by (simp add: published_def)
  from set_gpu_again [of _ g "sequential_batch cfg V s0 (published s)"] f(5) g
  have "\<exists>g'. prefetch s' b = set_gpu g' (sequential_batch cfg V s0 (published s))"
    by simp
  with fo t(1) f(4) show ?thesis
    unfolding follows_def Let_def f(1,2,3) p by auto
next
  case (forward tops b rest)
  with fo show ?thesis by (intro follows_same [OF fo]) simp_all
next
  case (copy b tops tops')
  with fo show ?thesis by (intro follows_same [OF fo]) simp_all
next
  case (return b tops')
  with fo show ?thesis by (intro follows_same [OF fo]) simp_all
next
  case interrupt
  with fo show ?thesis by (intro follows_same [OF fo]) simp_all
qed

lemma mod_neq:
  fixes k p N :: nat
  assumes "k < p" "p < k + N"
  shows "p mod N \<noteq> k mod N"
proof
  assume "p mod N = k mod N"
  then have "N dvd p - k" using assms(1) by (simp add: mod_eq_dvd_iff_nat)
  moreover have "0 < p - k" "p - k < N" using assms by simp_all
  ultimately show False by (simp add: nat_dvd_not_less)
qed

lemma sequential_slot:
  assumes "k < p" "p \<le> k + PREFETCH_COUNT cfg"
  shows "snd (sequential_state cfg V s0 p) (k mod PREFETCH_COUNT cfg)
           = stage cfg (sequential_batch cfg V s0 k)"
  using assms
proof (induction p)
  case 0
  then show ?case by simp
next
  case (Suc p)
  show ?case
  proof (cases "k = p")
    case True
    then show ?thesis by (simp add: sequential_state_Suc)
  next
    case False
    with Suc.prems have "k < p" "p < k + PREFETCH_COUNT cfg" by simp_all
    with Suc.IH mod_neq [OF this] show ?thesis by (simp add: sequential_state_Suc)
  qed
qed

lemma received_stage [simp]: "received labels t (stage cfg B) = received labels t B"
  by (simp add: received_def stage_def delivered_def)



lemma reshape_all_fun:
  "reshape_all [] = Some"
  "reshape_all ((i, src) # ps) = (\<lambda>t. top_ReshapeLike i src t \<bind> reshape_all ps)"
  by (rule ext, simp)+

lemma copy_all_fun:
  "copy_all [] = Some"
  "copy_all ((i, src) # ps) = (\<lambda>t. top_copy i src t \<bind> copy_all ps)"
  by (rule ext, simp)+

lemma Forward_cpu_copy_alt:
  "Forward_cpu_copy labels B t =
     top_ReshapeLike 0 (data B) t \<bind> top_copy 0 (data B) \<bind>
       (\<lambda>t. if labels then reshape_all (secondary B) t \<bind> copy_all (secondary B) else Some t)"
  by (cases labels)
    (simp_all add: Forward_cpu_copy_def secondary_def reshape_all_fun copy_all_fun)

lemma top_ReshapeLike_D:
  "top_ReshapeLike i src t = Some t' \<Longrightarrow> i < length t \<and> t' = t[i := ReshapeLike src (t ! i)]"
  by (simp add: top_ReshapeLike_def split: if_splits)

lemma top_copy_D:
  "top_copy i src t = Some t' \<Longrightarrow>
     i < length t \<and> count src \<le> length (cpu_mem src)
     \<and> t' = t[i := (t ! i)\<lparr>cpu_mem := take (count src) (cpu_mem src)
             @ drop (count src) (cpu_mem (t ! i))\<rparr>]"
  by (simp add: top_copy_def caffe_copy_def split: if_splits option.splits)

lemma reshape_all_D:
  assumes "reshape_all ps t = Some t'"
  shows "length t' = length t"
    and "j \<notin> fst ` set ps \<Longrightarrow> t' ! j = t ! j"
    and "distinct (map fst ps) \<Longrightarrow> (i, src) \<in> set ps \<Longrightarrow> t' ! i = ReshapeLike src (t ! i)"
  using assms
proof (induction ps arbitrary: t j i src)
  case Nil
  { case 1 then show ?case by simp }
  { case 2 then show ?case by simp }
  { case 3 then show ?case by simp }
next
  case (Cons p ps)
  obtain i0 src0 where p: "p = (i0, src0)" by (cases p)
  { case 1
    with p obtain t1 where a: "top_ReshapeLike i0 src0 t = Some t1" "reshape_all ps t1 = Some t'"
      by (auto simp: bind_eq_Some_conv)
    from Cons.IH(1) [OF a(2)] top_ReshapeLike_D [OF a(1)] show ?case by simp }
  { case 2
    with p obtain t1 where a: "top_ReshapeLike i0 src0 t = Some t1" "reshape_all ps t1 = Some t'"
      by (auto simp: bind_eq_Some_conv)
    from 2(1) p have "j \<notin> fst ` set ps" "j \<noteq> i0" by auto
    with Cons.IH(2) [OF _ a(2)] top_ReshapeLike_D [OF a(1)] show ?case by simp }
  { case 3
    with p obtain t1 where a: "top_ReshapeLike i0 src0 t = Some t1" "reshape_all ps t1 = Some t'"
      by (auto simp: bind_eq_Some_conv)
    from 3(1) p have d: "distinct (map fst ps)" "i0 \<notin> fst ` set ps" by auto
    show ?case
    proof (cases "(i, src) = (i0, src0)")
      case True
      with Cons.IH(2) [OF d(2) a(2)] top_ReshapeLike_D [OF a(1)] show ?thesis by simp
    next
      case False
      with 3(2) p have m: "(i, src) \<in> set ps" by auto
      with d(2) have "i \<noteq> i0" by force
      with Cons.IH(3) [OF d(1) m a(2)] top_ReshapeLike_D [OF a(1)] show ?thesis by simp
    qed }
qed

lemma copy_all_D:
  assumes "copy_all ps t = Some t'"
  shows "length t' = length t"
    and "j \<notin> fst ` set ps \<Longrightarrow> t' ! j = t ! j"
    and "distinct (map fst ps) \<Longrightarrow> (i, src) \<in> set ps \<Longrightarrow>
           count src \<le> length (cpu_mem src)
         \<and> t' ! i = (t ! i)\<lparr>cpu_mem := take (count src) (cpu_mem src)
             @ drop (count src) (cpu_mem (t ! i))\<rparr>"
  using assms
proof (induction ps arbitrary: t j i src)
  case Nil
  { case 1 then show ?case by simp }
  { case 2 then show ?case by simp }
  { case 3 then show ?case by simp }
next
  case (Cons p ps)
  obtain i0 src0 where p: "p = (i0, src0)" by (cases p)
  { case 1
    with p obtain t1 where a: "top_copy i0 src0 t = Some t1" "copy_all ps t1 = Some t'"
      by (auto simp: bind_eq_Some_conv)
    from Cons.IH(1) [OF a(2)] top_copy_D [OF a(1)] show ?case by simp }
  { case 2
    with p obtain t1 where a: "top_copy i0 src0 t = Some t1" "copy_all ps t1 = Some t'"
      by (auto simp: bind_eq_Some_conv)
    from 2(1) p have "j \<notin> fst ` set ps" "j \<noteq> i0" by auto
    with Cons.IH(2) [OF _ a(2)] top_copy_D [OF a(1)] show ?case by simp }
  { case 3
    with p obtain t1 where a: "top_copy i0 src0 t = Some t1" "copy_all ps t1 = Some t'"
      by (auto simp: bind_eq_Some_conv)
    from 3(1) p have d: "distinct (map fst ps)" "i0 \<notin> fst ` set ps" by auto
    show ?case
    proof (cases "(i, src) = (i0, src0)")
      case True
      with Cons.IH(2) [OF d(2) a(2)] top_copy_D [OF a(1)] show ?thesis by simp
    next
      case False
      with 3(2) p have m: "(i, src) \<in> set ps" by auto
      with d(2) have "i \<noteq> i0" by force
      with Cons.IH(3) [OF d(1) m a(2)] top_copy_D [OF a(1)] show ?thesis by simp
    qed }
qed

lemma delivered_copy_reshape:
  assumes "count src \<le> length (cpu_mem src)"
  shows "delivered src ((ReshapeLike src x)\<lparr>cpu_mem := take (count src) (cpu_mem src)
             @ drop (count src) (cpu_mem (ReshapeLike src x))\<rparr>)"
  using assms by (simp add: delivered_def)

lemma Forward_cpu_copy_received:
  assumes "Forward_cpu_copy labels B t = Some t'"
  shows "received labels t' B"
proof -
  from assms obtain t1 t2 where a: "top_ReshapeLike 0 (data B) t = Some t1"
    "top_copy 0 (data B) t1 = Some t2"
    and r: "(if labels then reshape_all (secondary B) t2 \<bind> copy_all (secondary B) else Some t2)
              = Some t'"
    by (auto simp: Forward_cpu_copy_alt bind_eq_Some_conv)
  from top_ReshapeLike_D [OF a(1)] top_copy_D [OF a(2)]
  have p: "delivered (data B) (t2 ! 0)"
    by (simp add: delivered_def)
  show ?thesis
  proof (cases labels)
    case False
    with r p show ?thesis by (simp add: received_def)
  next
    case True
    with r obtain t3 where b: "reshape_all (secondary B) t2 = Some t3"
      "copy_all (secondary B) t3 = Some t'"
      by (auto simp: bind_eq_Some_conv)
    have d: "distinct (map fst (secondary B))" by (simp add: secondary_def)
    have z: "0 \<notin> fst ` set (secondary B)" by (simp add: secondary_def)
    have 0: "t' ! 0 = t2 ! 0"
      using copy_all_D(2) [OF b(2) z] reshape_all_D(2) [OF b(1) z] by simp
    have s: "delivered src (t' ! i)" if "(i, src) \<in> set (secondary B)" for i src
      using copy_all_D(3) [OF b(2) d that] reshape_all_D(3) [OF b(1) d that]
      by (simp add: delivered_copy_reshape)
    from p 0 True show ?thesis
      by (simp add: received_def s secondary_def)
  qed
qed

lemma rewritten_filling: "set (rewritten pc) \<subseteq> set (filling pc)"
  by (cases pc) simp_all

lemma handed_over_started: "handed_over cfg V s0 (started cfg V tops l ol)"
  by (simp add: handed_over_def trace_started)

lemma handed_over_same:
  assumes "handed_over cfg V s0 s"
    and "forwarded (trace s') = forwarded (trace s)" "copied (consumer s') = copied (consumer s)"
    and "output_labels s' = output_labels s"
  shows "handed_over cfg V s0 s'"
  using assms by (simp add: handed_over_def)

lemma draining_slot:
  assumes rr: "round_robin cfg s" and fo: "follows cfg V s0 s"
    and b: "b \<in> set (draining (consumer s))"
  shows "prefetch s b = stage cfg (sequential_batch cfg V s0 (length (forwarded (trace s))))"
proof -
  let ?d = "length (forwarded (trace s))" and ?N = "PREFETCH_COUNT cfg" and ?p = "published s"
  from b have "0 < length (draining (consumer s))" by (cases "draining (consumer s)") auto
  moreover from rr have "?d + length (draining (consumer s)) \<le> ?p"
    by (simp add: round_robin_def Let_def)
  ultimately have dp: "?d < ?p" by linarith
  from rr b have bd: "b = ?d mod ?N"
    by (simp add: round_robin_def Let_def)
  from rr have pn: "?p + length (filling (thread s)) \<le> ?d + ?N"
    and f: "\<forall>x \<in> set (filling (thread s)). x = ?p mod ?N"
    by (simp_all add: round_robin_def Let_def)
  have "b \<notin> set (rewritten (thread s))"
  proof
    assume m: "b \<in> set (rewritten (thread s))"
    with rewritten_filling have m': "b \<in> set (filling (thread s))" by blast
    with f have "b = ?p mod ?N" by blast
    moreover from m' pn have "?p < ?d + ?N"
      by (cases "filling (thread s)") auto
    ultimately show False using mod_neq [OF dp, of ?N] bd by metis
  qed
  with fo have "prefetch s b = snd (sequential_state cfg V s0 ?p) b"
    by (simp add: follows_def Let_def)
  also have "\<dots> = stage cfg (sequential_batch cfg V s0 ?d)"
    unfolding bd using dp pn by (intro sequential_slot) simp_all
  finally show ?thesis .
qed

lemma handed_over_step:
  assumes ho: "handed_over cfg V s0 s" and rr: "round_robin cfg s"
    and fo: "follows cfg V s0 s" and st: "step cfg V a s = Some s'"
  shows "handed_over cfg V s0 s'"
  using st
proof (cases rule: step_cases)
  case (copy b tops tops')
  then have "b \<in> set (draining (consumer s))" by simp
  from draining_slot [OF rr fo this] copy(3)
  have "Forward_cpu_copy (output_labels s)
          (stage cfg (sequential_batch cfg V s0 (length (forwarded (trace s))))) tops
        = Some tops'"
    by simp
  from Forward_cpu_copy_received [OF this]
  have r: "received (output_labels s) tops'
          (sequential_batch cfg V s0 (length (forwarded (trace s))))"
    by simp
  from copy have f: "forwarded (trace s') = forwarded (trace s)" "copied (consumer s) = []"
    "copied (consumer s') = [tops']" "output_labels s' = output_labels s"
    by simp_all
  from ho r show ?thesis
    unfolding handed_over_def f by (simp add: list_all2_appendI)
next
  case (return b tops')
  then have f: "forwarded (trace s') = forwarded (trace s) @ [tops']"
    "copied (consumer s) = [tops']"
    "copied (consumer s') = []" "output_labels s' = output_labels s"
    by simp_all
  from ho show ?thesis
    unfolding handed_over_def f by simp
qed (rule handed_over_same [OF ho]; simp)+

lemma pipeline_ok_step:
  assumes "pipeline_ok cfg V s0 s" and st: "step cfg V a s = Some s'"
  shows "pipeline_ok cfg V s0 s'"
proof -
  from assms(1) have so: "stream_ok cfg s" and sg: "staged_ok cfg s" and co: "conserved cfg s"
    and rr: "round_robin cfg s" and fo: "follows cfg V s0 s" and ho: "handed_over cfg V s0 s"
    by (simp_all add: pipeline_ok_def)
  note stream_ok_step [OF so st] staged_ok_step [OF sg co so st] conserved_step [OF co st]
    round_robin_step [OF rr st] follows_step [OF fo rr so sg st]
    handed_over_step [OF ho rr fo st]
  then show ?thesis by (simp add: pipeline_ok_def)
qed

lemma pipeline_ok_reachable:
  assumes "exec cfg V sched (started cfg V tops l ol) = Some s"
  shows "pipeline_ok cfg V (started cfg V tops l ol) s"
proof (rule exec_invariant [where P = "pipeline_ok cfg V (started cfg V tops l ol)", OF assms])
  show "pipeline_ok cfg V (started cfg V tops l ol) (started cfg V tops l ol)"
    by (simp add: pipeline_ok_def conserved_started stream_ok_started staged_ok_started
        round_robin_started follows_started handed_over_started)
qed (rule pipeline_ok_step)

lemma stamps_sequential:
  assumes "stamps V seq cnt"
  shows "cnt (fst (sequential_state cfg V s0 k)) = cnt (loader s0) + k"
    and "seq (view (data (sequential_batch cfg V s0 k))) = cnt (loader s0) + k"
    and "count (data (sequential_batch cfg V s0 k))
           = prod_list (shape (data (sequential_batch cfg V s0 k)))"
proof -
  have st: "count (data (snd (load_batch V l B))) = prod_list (shape (data (snd (load_batch V l B))))"
    "seq (view (data (snd (load_batch V l B)))) = cnt l"
    "cnt (fst (load_batch V l B)) = Suc (cnt l)" for l B
    using assms by (simp_all add: stamps_def)
  show 1: "cnt (fst (sequential_state cfg V s0 k)) = cnt (loader s0) + k" for k
    by (induction k) (simp_all add: sequential_state_Suc st)
  show "seq (view (data (sequential_batch cfg V s0 k))) = cnt (loader s0) + k"
    by (simp add: sequential_batch_eq st 1)
  show "count (data (sequential_batch cfg V s0 k))
           = prod_list (shape (data (sequential_batch cfg V s0 k)))"
    by (simp add: sequential_batch_eq st)
qed

lemma view_delivered:
  "delivered src dst \<Longrightarrow> count src = prod_list (shape src) \<Longrightarrow> view dst = view src"
  by (simp add: delivered_def view_def)

lemma list_all2_map_eq: "list_all2 (\<lambda>x y. f x = g y) xs ys \<Longrightarrow> map f xs = map g ys"
  by (induction rule: list_all2_induct) simp_all

lemma map_upt_add: "map (\<lambda>k. n + k) [0..<d] = [n..<n + d]"
  by (induction d) simp_all

text \<open>
  Claim C2. In every reachable state, call \<open>k\<close> of \<open>Forward_cpu\<close> has received the
  \<open>k\<close>-th batch the prefetch thread loaded, so batches are delivered in the order of
  production with no gap and no repeat; the batches loaded are those of the sequential
  reference, which does not depend on the schedule; and for a loader that stamps
  consecutive sequence numbers the calls observe these numbers in order.
\<close>

theorem delivery_order:
  assumes "exec cfg V sched (started cfg V tops l ol) = Some s"
  shows "list_all2 (received (output_labels s)) (forwarded (trace s))
           (take (length (forwarded (trace s))) (loaded (trace s)))
     \<and> length (forwarded (trace s)) \<le> length (loaded (trace s))
     \<and> loaded (trace s)
         = map (sequential_batch cfg V (started cfg V tops l ol))
             [0..<length (loaded (trace s))]
     \<and> (stamps V seq cnt \<longrightarrow>
           map (\<lambda>t. seq (view (t ! 0))) (forwarded (trace s))
             = [cnt (loader (started cfg V tops l ol))
                  ..<cnt (loader (started cfg V tops l ol)) + length (forwarded (trace s))])"
proof -
  let ?s0 = "started cfg V tops l ol"
  let ?d = "length (forwarded (trace s))" and ?m = "length (loaded (trace s))"
  from pipeline_ok_reachable [OF assms] have rr: "round_robin cfg s"
    and fo: "follows cfg V ?s0 s" and ho: "handed_over cfg V ?s0 s"
    by (simp_all add: pipeline_ok_def)
  from rr have "?d + length (draining (consumer s)) \<le> published s"
    by (simp add: round_robin_def Let_def)
  moreover have "published s \<le> ?m" by (simp add: published_def)
  ultimately have dm: "?d \<le> ?m" by linarith
  from fo have lo: "loaded (trace s) = map (sequential_batch cfg V ?s0) [0..<?m]"
    by (simp add: follows_def Let_def)
  from ho have "list_all2 (received (output_labels s))
      (take ?d (forwarded (trace s) @ copied (consumer s)))
      (take ?d (map (sequential_batch cfg V ?s0) [0..<?d + length (copied (consumer s))]))"
    unfolding handed_over_def by (rule list_all2_takeI)
  then have fw: "list_all2 (received (output_labels s)) (forwarded (trace s))
      (map (sequential_batch cfg V ?s0) [0..<?d])"
    by (simp add: take_map)
  have tk: "take ?d (loaded (trace s)) = map (sequential_batch cfg V ?s0) [0..<?d]"
    using dm by (subst lo) (simp add: take_map)
  have st: "map (\<lambda>t. seq (view (t ! 0))) (forwarded (trace s))
             = [cnt (loader ?s0)..<cnt (loader ?s0) + ?d]" if "stamps V seq cnt"
  proof -
    have "seq (view (t ! 0)) = cnt (loader ?s0) + k"
      if "received (output_labels s) t (sequential_batch cfg V ?s0 k)" for t k
    proof -
      from that have "delivered (data (sequential_batch cfg V ?s0 k)) (t ! 0)"
        by (simp add: received_def)
      from view_delivered [OF this stamps_sequential(3) [OF \<open>stamps V seq cnt\<close>]]
        stamps_sequential(2) [OF \<open>stamps V seq cnt\<close>, of cfg ?s0 k]
      show ?thesis by simp
    qed
    note * = this
    from fw have "list_all2 (\<lambda>t k. received (output_labels s) t (sequential_batch cfg V ?s0 k))
        (forwarded (trace s)) [0..<?d]"
      by (simp add: list_all2_map2)
    then have "list_all2 (\<lambda>t k. seq (view (t ! 0)) = cnt (loader ?s0) + k)
        (forwarded (trace s)) [0..<?d]"
      by (rule list_all2_mono) (rule *)
    then have "map (\<lambda>t. seq (view (t ! 0))) (forwarded (trace s))
        = map (\<lambda>k. cnt (loader ?s0) + k) [0..<?d]"
      by (rule list_all2_map_eq)
    then show ?thesis by (simp only: map_upt_add)
  qed
  from fw tk dm lo st show ?thesis by simp
qed

lemma demo_three_state:
  "(case exec demo_cfg stamping_loader demo_sched_three demo_start of
      None \<Rightarrow> False
    | Some s \<Rightarrow> length (forwarded (trace s)) = 3 \<and> length (loaded (trace s)) = 3)"
  by code_simp

lemma demo_start_loader: "loader demo_start = 0"
  by code_simp

lemma stamps_demo: "stamps stamping_loader (\<lambda>v. hd (snd v)) (\<lambda>k. k)"
  by (simp add: stamps_def stamping_loader_def stamp_def view_def)

theorem delivery_order_witness:
  "\<exists>s. exec demo_cfg stamping_loader demo_sched_three demo_start = Some s
     \<and> map (\<lambda>t. hd (snd (view (t ! 0)))) (forwarded (trace s)) = [0, 1, 2]
     \<and> length (loaded (trace s)) = 3"
proof -
  from demo_three_state obtain s where
    e: "exec demo_cfg stamping_loader demo_sched_three demo_start = Some s"
    and n: "length (forwarded (trace s)) = 3" "length (loaded (trace s)) = 3"
    by (auto split: option.splits)
  have u: "[0..<3] = [0, 1, 2::nat]" by (simp add: upt_rec)
  from delivery_order [OF e [unfolded demo_start_def], of "\<lambda>v. hd (snd v)" "\<lambda>k. k"]
    stamps_demo demo_start_loader n u e
  show ?thesis by (auto simp: demo_start_def)
qed

end
